theory Spec2Isabelle
  imports Complex_Main "HOL-Library.Char_ord" "HOL-Library.List_Lexorder"
begin

section \<open>Text and character classes\<close>


definition is_space :: "char \<Rightarrow> bool" where
  "is_space c = (c \<in> set [CHR 0x09, CHR 0x0A, CHR 0x0B, CHR 0x0C, CHR 0x0D,
                            CHR 0x1C, CHR 0x1D, CHR 0x1E, CHR 0x1F, CHR 0x20])"

definition is_digit :: "char \<Rightarrow> bool" where
  "is_digit c = (CHR ''0'' \<le> c \<and> c \<le> CHR ''9'')"

definition is_upper :: "char \<Rightarrow> bool" where
  "is_upper c = (CHR ''A'' \<le> c \<and> c \<le> CHR ''Z'')"

definition is_lower :: "char \<Rightarrow> bool" where
  "is_lower c = (CHR ''a'' \<le> c \<and> c \<le> CHR ''z'')"

definition is_word :: "char \<Rightarrow> bool" where
  "is_word c = (is_upper c \<or> is_lower c \<or> is_digit c \<or> c = CHR ''_'')"

definition upper_letters :: string where
  "upper_letters = ''ABCDEFGHIJKLMNOPQRSTUVWXYZ''"

definition lower_letters :: string where
  "lower_letters = ''abcdefghijklmnopqrstuvwxyz''"

definition lower_chr :: "char \<Rightarrow> char" where
  "lower_chr c = (case map_of (zip upper_letters lower_letters) c of
                    Some l \<Rightarrow> l | None \<Rightarrow> c)"

definition upper_chr :: "char \<Rightarrow> char" where
  "upper_chr c = (case map_of (zip lower_letters upper_letters) c of
                    Some u \<Rightarrow> u | None \<Rightarrow> c)"

text \<open>\<^verbatim>\<open>str.lower()\<close> and \<^verbatim>\<open>str.strip()\<close>.\<close>

definition lower :: "string \<Rightarrow> string" where
  "lower s = map lower_chr s"

definition strip :: "string \<Rightarrow> string" where
  "strip s = rev (dropWhile is_space (rev (dropWhile is_space s)))"

text \<open>
  The exceptions that can leave the parser.
\<close>

datatype error = ValueError | OverflowError

text \<open>
  \<^verbatim>\<open>int(s)\<close> on a string of decimal digits, which is all the call sites pass (each
  argument is the capture of a \<^verbatim>\<open>\d\<close> repetition, or guarded by \<^verbatim>\<open>isdigit\<close>).
  \<open>int_of_digits\<close> is the value of the digits. Python's integers are unbounded, but
  \<^verbatim>\<open>int\<close> raises \<^verbatim>\<open>ValueError\<close> on more than \<^verbatim>\<open>sys.int_max_str_digits\<close> digits (4300
  unless configured otherwise, leading zeros counted): \<open>py_int\<close> is \<^verbatim>\<open>int\<close> with that
  limit. Where the pattern bounds the capture (\<^verbatim>\<open>\d{1,2}\<close>, \<^verbatim>\<open>\d{1,3}\<close>, \<^verbatim>\<open>\d{4}\<close>) the
  limit is out of reach and the model takes \<open>int_of_digits\<close> directly; the captures of
  \<^verbatim>\<open>\d+\<close> in the traveler rules go through \<open>py_int\<close>.
\<close>

definition digit_val :: "char \<Rightarrow> int" where
  "digit_val c = of_char c - 48"

definition int_of_digits :: "string \<Rightarrow> int" where
  "int_of_digits s = foldl (\<lambda>a c. 10 * a + digit_val c) 0 s"

definition int_max_str_digits :: nat where
  "int_max_str_digits = 4300"

definition py_int :: "string \<Rightarrow> error + int" where
  "py_int s = (if int_max_str_digits < length s then Inl ValueError else Inr (int_of_digits s))"

definition isdigit :: "string \<Rightarrow> bool" where
  "isdigit s = (s \<noteq> [] \<and> list_all is_digit s)"

section \<open>Regular expressions with Python's backtracking order\<close>

text \<open>
  The fragment of \<^verbatim>\<open>re\<close> the source uses: literals, character sets, bounded and
  unbounded repetition of one character set (greedy or lazy), sequence, alternation,
  optional groups, capturing groups, \<^verbatim>\<open>\b\<close>, \<^verbatim>\<open>$\<close> and lookahead. A cursor is the
  text already passed (reversed) and the text ahead. \<open>rmatch\<close> lists every way the
  expression matches at the cursor, in the order in which the backtracking matcher of
  \<^verbatim>\<open>re\<close> tries them: the head of the list is the match Python reports.
\<close>

datatype citem = Ch char | Rng char char | Sp | Dg | Wd

datatype cset = Pos "citem list" | Neg "citem list"

datatype regex =
    Lit string
  | One cset
  | Rep bool nat "nat option" cset
  | Seq regex regex
  | Alt regex regex
  | Opt regex
  | Grp nat regex
  | WordB
  | Eos
  | Look regex

type_synonym cursor = "string \<times> string"
type_synonym caps = "nat \<Rightarrow> string option"

fun in_item :: "char \<Rightarrow> citem \<Rightarrow> bool" where
  "in_item c (Ch x) = (c = x)"
| "in_item c (Rng a b) = (a \<le> c \<and> c \<le> b)"
| "in_item c Sp = is_space c"
| "in_item c Dg = is_digit c"
| "in_item c Wd = is_word c"

definition in_items :: "bool \<Rightarrow> citem list \<Rightarrow> char \<Rightarrow> bool" where
  "in_items ic items c =
     list_ex (\<lambda>i. in_item c i \<or> (ic \<and> (in_item (lower_chr c) i \<or> in_item (upper_chr c) i))) items"

fun in_cset :: "bool \<Rightarrow> cset \<Rightarrow> char \<Rightarrow> bool" where
  "in_cset ic (Pos items) c = in_items ic items c"
| "in_cset ic (Neg items) c = (\<not> in_items ic items c)"

definition chr_eq :: "bool \<Rightarrow> char \<Rightarrow> char \<Rightarrow> bool" where
  "chr_eq ic x c = (if ic then lower_chr x = lower_chr c else x = c)"

fun lit_match :: "bool \<Rightarrow> string \<Rightarrow> string \<Rightarrow> string \<Rightarrow> cursor option" where
  "lit_match ic [] p t = Some (p, t)"
| "lit_match ic (x # xs) p [] = None"
| "lit_match ic (x # xs) p (c # t) =
     (if chr_eq ic x c then lit_match ic xs (c # p) t else None)"

definition at_boundary :: "cursor \<Rightarrow> bool" where
  "at_boundary cur =
     ((case fst cur of [] \<Rightarrow> False | c # _ \<Rightarrow> is_word c) \<noteq>
      (case snd cur of [] \<Rightarrow> False | c # _ \<Rightarrow> is_word c))"

definition at_end :: "cursor \<Rightarrow> bool" where
  "at_end cur = (snd cur = [] \<or> snd cur = [CHR 0x0A])"

definition rep_counts :: "bool \<Rightarrow> nat \<Rightarrow> nat option \<Rightarrow> nat \<Rightarrow> nat list" where
  "rep_counts greedy least most avail =
     (let hi = (case most of None \<Rightarrow> avail | Some m \<Rightarrow> min m avail);
          ns = [least ..< Suc hi]
      in if greedy then rev ns else ns)"

definition advance :: "nat \<Rightarrow> cursor \<Rightarrow> cursor" where
  "advance n cur = (rev (take n (snd cur)) @ fst cur, drop n (snd cur))"

fun rmatch :: "bool \<Rightarrow> regex \<Rightarrow> cursor \<Rightarrow> caps \<Rightarrow> (cursor \<times> caps) list" where
  "rmatch ic (Lit s) cur g =
     (case lit_match ic s (fst cur) (snd cur) of None \<Rightarrow> [] | Some cur' \<Rightarrow> [(cur', g)])"
| "rmatch ic (One cs) cur g =
     (case snd cur of [] \<Rightarrow> []
      | c # t \<Rightarrow> if in_cset ic cs c then [((c # fst cur, t), g)] else [])"
| "rmatch ic (Rep greedy least most cs) cur g =
     map (\<lambda>n. (advance n cur, g))
       (rep_counts greedy least most (length (takeWhile (in_cset ic cs) (snd cur))))"
| "rmatch ic (Seq r1 r2) cur g =
     concat (map (\<lambda>(cur', g'). rmatch ic r2 cur' g') (rmatch ic r1 cur g))"
| "rmatch ic (Alt r1 r2) cur g = rmatch ic r1 cur g @ rmatch ic r2 cur g"
| "rmatch ic (Opt r) cur g = rmatch ic r cur g @ [(cur, g)]"
| "rmatch ic (Grp n r) cur g =
     map (\<lambda>(cur', g'). (cur', g'(n \<mapsto> take (length (snd cur) - length (snd cur')) (snd cur))))
       (rmatch ic r cur g)"
| "rmatch ic WordB cur g = (if at_boundary cur then [(cur, g)] else [])"
| "rmatch ic Eos cur g = (if at_end cur then [(cur, g)] else [])"
| "rmatch ic (Look r) cur g =
     (case rmatch ic r cur g of [] \<Rightarrow> [] | (cur', g') # _ \<Rightarrow> [(cur, g')])"

text \<open>
  A match object: the text before the match (reversed), \<^verbatim>\<open>group(0)\<close>, the numbered
  groups (\<open>None\<close> for a group that took no part) and the text after the match.
\<close>

record rematch =
  m_before :: string
  m_whole :: string
  m_groups :: caps
  m_after :: string

definition mk_match :: "string \<Rightarrow> string \<Rightarrow> cursor \<times> caps \<Rightarrow> rematch" where
  "mk_match p t res =
     \<lparr>m_before = p,
      m_whole = take (length t - length (snd (fst res))) t,
      m_groups = snd res,
      m_after = snd (fst res)\<rparr>"

text \<open>\<^verbatim>\<open>re.search\<close>: the first match at the leftmost position that has one.\<close>

fun search_at :: "bool \<Rightarrow> regex \<Rightarrow> string \<Rightarrow> string \<Rightarrow> rematch option" where
  "search_at ic r p [] =
     (case rmatch ic r (p, []) Map.empty of
        [] \<Rightarrow> None
      | res # _ \<Rightarrow> Some (mk_match p [] res))"
| "search_at ic r p (c # t) =
     (case rmatch ic r (p, c # t) Map.empty of
        [] \<Rightarrow> search_at ic r (c # p) t
      | res # _ \<Rightarrow> Some (mk_match p (c # t) res))"

definition re_search :: "bool \<Rightarrow> regex \<Rightarrow> string \<Rightarrow> rematch option" where
  "re_search ic r text = search_at ic r [] text"

text \<open>Abbreviations for writing the source's patterns.\<close>

definition seqs :: "regex list \<Rightarrow> regex" where
  "seqs rs = foldr Seq rs (Lit [])"

definition alts :: "string list \<Rightarrow> regex" where
  "alts ws = foldr (\<lambda>w r. Alt (Lit w) r) (butlast ws) (Lit (last ws))"

definition ws0 :: regex where "ws0 = Rep True 0 None (Pos [Sp])"
definition ws1 :: regex where "ws1 = Rep True 1 None (Pos [Sp])"

definition digits :: "nat \<Rightarrow> nat \<Rightarrow> regex" where
  "digits least most = Rep True least (Some most) (Pos [Dg])"

text \<open>
  \<^verbatim>\<open>re.finditer\<close>: the matches from left to right, each search starting where the
  last match ended. No pattern of the source matches the empty string; after an empty
  match the scan moves one character on.
\<close>

lemma lit_match_length: "lit_match ic s p t = Some cur \<Longrightarrow> length (snd cur) \<le> length t"
  by (induction ic s p t rule: lit_match.induct) (auto split: if_splits)

lemma rmatch_length:
  "((p', t'), g') \<in> set (rmatch ic r (p, t) g) \<Longrightarrow> length t' \<le> length t"
proof (induction r arbitrary: p t g p' t' g')
  case (Lit s)
  then show ?case
    by (cases "lit_match ic s p t") (auto dest: lit_match_length)
next
  case (One cs)
  then show ?case
    by (cases t) (auto split: if_splits)
next
  case (Rep greedy least most cs)
  then show ?case
    by (auto simp: advance_def)
next
  case (Seq r1 r2)
  from Seq.prems obtain p1 t1 g1 where
    a: "((p1, t1), g1) \<in> set (rmatch ic r1 (p, t) g)" and
    b: "((p', t'), g') \<in> set (rmatch ic r2 (p1, t1) g1)"
    by auto
  from Seq.IH(1)[OF a] Seq.IH(2)[OF b] show ?case
    by simp
next
  case (Alt r1 r2)
  from Alt.prems have
    "((p', t'), g') \<in> set (rmatch ic r1 (p, t) g) \<or> ((p', t'), g') \<in> set (rmatch ic r2 (p, t) g)"
    by simp
  with Alt.IH show ?case
    by blast
next
  case (Opt r)
  from Opt.prems have "((p', t'), g') \<in> set (rmatch ic r (p, t) g) \<or> t' = t"
    by auto
  with Opt.IH show ?case
    by auto
next
  case (Grp n r)
  from Grp.prems obtain g0 where "((p', t'), g0) \<in> set (rmatch ic r (p, t) g)"
    by auto
  with Grp.IH show ?case
    by blast
next
  case WordB
  then show ?case
    by (auto split: if_splits)
next
  case Eos
  then show ?case
    by (auto split: if_splits)
next
  case (Look r)
  then show ?case
    by (auto split: list.splits)
qed

lemma rmatch_hd_length:
  "rmatch ic r (p, t) g = res # rest \<Longrightarrow> length (snd (fst res)) \<le> length t"
  using rmatch_length[of "fst (fst res)" "snd (fst res)" "snd res" ic r p t g] by simp

lemma mk_match_length:
  assumes "length (snd (fst res)) \<le> length t"
  shows "length (m_after (mk_match p t res)) \<le> length t"
    and "m_whole (mk_match p t res) \<noteq> [] \<Longrightarrow> length (m_after (mk_match p t res)) < length t"
  using assms by (auto simp: mk_match_def)

lemma search_at_length:
  "search_at ic r p t = Some m \<Longrightarrow>
     length (m_after m) \<le> length t \<and> (m_whole m \<noteq> [] \<longrightarrow> length (m_after m) < length t)"
proof (induction ic r p t rule: search_at.induct)
  case (1 ic r p)
  then obtain res rest where r: "rmatch ic r (p, []) Map.empty = res # rest"
    and m: "m = mk_match p [] res"
    by (auto split: list.splits)
  from rmatch_hd_length[OF r] have "length (snd (fst res)) \<le> length ([] :: string)" .
  from mk_match_length[OF this] m show ?case
    by blast
next
  case (2 ic r p c t)
  show ?case
  proof (cases "rmatch ic r (p, c # t) Map.empty")
    case Nil
    with 2 show ?thesis
      by fastforce
  next
    case (Cons res rest)
    from rmatch_hd_length[OF Cons] have "length (snd (fst res)) \<le> length (c # t)" .
    moreover from 2(2) Cons have "m = mk_match p (c # t) res"
      by simp
    ultimately show ?thesis
      using mk_match_length by blast
  qed
qed

function finditer_at :: "bool \<Rightarrow> regex \<Rightarrow> string \<Rightarrow> string \<Rightarrow> rematch list" where
  "finditer_at ic r p t =
     (case search_at ic r p t of
        None \<Rightarrow> []
      | Some m \<Rightarrow>
          if m_whole m = []
          then (case m_after m of
                  [] \<Rightarrow> [m]
                | c # t' \<Rightarrow> m # finditer_at ic r (c # m_before m) t')
          else m # finditer_at ic r (rev (m_whole m) @ m_before m) (m_after m))"
  by pat_completeness auto
termination
proof (relation "measure (\<lambda>(ic, r, p, t). length t)", goal_cases)
  case 1
  then show ?case by simp
next
  case (2 ic r p t m c t')
  then show ?case
    using search_at_length[of ic r p t m] by simp
next
  case (3 ic r p t m)
  then show ?case
    using search_at_length[of ic r p t m] by simp
qed

definition re_finditer :: "bool \<Rightarrow> regex \<Rightarrow> string \<Rightarrow> rematch list" where
  "re_finditer ic r text = finditer_at ic r [] text"

text \<open>
  \<^verbatim>\<open>re.sub(pattern, repl, text)\<close> for a replacement without group references: the text
  between the matches of \<^verbatim>\<open>finditer\<close>, with \<open>repl\<close> in place of each match.
\<close>

fun sub_from :: "string \<Rightarrow> string \<Rightarrow> nat \<Rightarrow> rematch list \<Rightarrow> string" where
  "sub_from repl text pos [] = drop pos text"
| "sub_from repl text pos (m # ms) =
     take (length (m_before m) - pos) (drop pos text) @ repl @
     sub_from repl text (length (m_before m) + length (m_whole m)) ms"

definition re_sub :: "bool \<Rightarrow> regex \<Rightarrow> string \<Rightarrow> string \<Rightarrow> string" where
  "re_sub ic r repl text = sub_from repl text 0 (re_finditer ic r text)"

definition clean :: "string \<Rightarrow> string" where
  "clean text = re_sub False ws1 '' '' (strip text)"

definition strip_ord :: "string \<Rightarrow> int" where
  "strip_ord d =
     int_of_digits (re_sub True (Seq (Grp 1 (alts [''st'', ''nd'', ''rd'', ''th''])) Eos) [] d)"

section \<open>Lexicon tables\<close>

definition WORD_NUMS :: "(string \<times> int) list" where
  "WORD_NUMS =
     [(''one'', 1), (''two'', 2), (''three'', 3), (''four'', 4), (''five'', 5), (''six'', 6),
      (''seven'', 7), (''eight'', 8), (''nine'', 9), (''ten'', 10), (''eleven'', 11),
      (''twelve'', 12), (''thirteen'', 13), (''fourteen'', 14), (''fifteen'', 15),
      (''sixteen'', 16), (''seventeen'', 17), (''eighteen'', 18), (''nineteen'', 19),
      (''twenty'', 20)]"

section \<open>Duration extractor\<close>

definition day_words :: regex where
  "day_words = alts [''day'', ''days'', ''night'', ''nights'']"

definition duration_digit_pat :: regex where
  "duration_digit_pat =
     seqs [WordB, Grp 1 (digits 1 3), ws0, Opt (Seq (Lit ''-'') ws0), day_words, WordB]"

definition duration_word_pat :: "string \<Rightarrow> regex" where
  "duration_word_pat w = seqs [WordB, Lit w, ws0, day_words, WordB]"

fun first_word_num :: "(string \<Rightarrow> regex) \<Rightarrow> string \<Rightarrow> (string \<times> int) list \<Rightarrow> int option" where
  "first_word_num pat text [] = None"
| "first_word_num pat text ((w, n) # rest) =
     (case re_search True (pat w) text of
        Some m \<Rightarrow> Some n
      | None \<Rightarrow> first_word_num pat text rest)"

definition find_duration_days :: "string \<Rightarrow> int option" where
  "find_duration_days text =
     (case re_search True duration_digit_pat text of
        Some m \<Rightarrow> Some (int_of_digits (the (m_groups m 1)))
      | None \<Rightarrow> first_word_num duration_word_pat text WORD_NUMS)"

section \<open>Traveler count resolver\<close>

record travelers_t =
  adults :: "int option"
  children :: int

definition family_pat :: regex where
  "family_pat =
     seqs [WordB, Lit ''family'', ws1, Lit ''of'', ws1,
           Grp 1 (Rep True 1 None (Pos [Dg])), WordB]"

definition people_pat :: regex where
  "people_pat =
     seqs [WordB, Grp 1 (Rep True 1 None (Pos [Dg])), ws1,
           Alt (Seq (Lit ''adult'') (Opt (Lit ''s'')))
             (Alt (Lit ''people'') (Seq (Lit ''person'') (Opt (Lit ''s'')))),
           WordB]"

definition people_word_pat :: "string \<Rightarrow> regex" where
  "people_word_pat w =
     seqs [WordB, Lit w, ws1,
           Alt (Lit ''people'') (Alt (Lit ''persons'') (Seq (Lit ''adult'') (Opt (Lit ''s'')))),
           WordB]"

definition for_pat :: regex where
  "for_pat =
     seqs [WordB, Lit ''for'', ws1,
           Grp 1 (Alt (alts [''one'', ''two'', ''three'', ''four'', ''five'', ''six''])
                      (Rep True 1 None (Pos [Dg]))),
           WordB]"

definition couple_pat :: regex where
  "couple_pat = seqs [WordB, Grp 1 (alts [''couple'', ''honeymoon'']), WordB]"

text \<open>
  The rules in the source's order. \<^verbatim>\<open>int\<close> may raise in the rules that convert a capture
  of \<^verbatim>\<open>\d+\<close>; in the "for N" rule the default argument
  \<^verbatim>\<open>int(word) if word.isdigit() else 2\<close> is evaluated before the lookup in the table.
\<close>

definition find_travelers :: "string \<Rightarrow> error + travelers_t" where
  "find_travelers text =
     (case re_search True family_pat text of
        Some m \<Rightarrow>
          (case py_int (the (m_groups m 1)) of
             Inl e \<Rightarrow> Inl e
           | Inr total_n \<Rightarrow>
               (let a = (if total_n \<ge> 3 then max 2 (total_n - 2) else total_n)
                in Inr \<lparr>adults = Some a, children = max 0 (total_n - a)\<rparr>))
      | None \<Rightarrow>
     (case re_search True people_pat text of
        Some m \<Rightarrow>
          (case py_int (the (m_groups m 1)) of
             Inl e \<Rightarrow> Inl e
           | Inr n \<Rightarrow> Inr \<lparr>adults = Some n, children = 0\<rparr>)
      | None \<Rightarrow>
     (case first_word_num people_word_pat text WORD_NUMS of
        Some n \<Rightarrow> Inr \<lparr>adults = Some n, children = 0\<rparr>
      | None \<Rightarrow>
     (case re_search True for_pat text of
        Some m \<Rightarrow>
          (let word = lower (the (m_groups m 1))
           in case (if isdigit word then py_int word else Inr 2) of
                Inl e \<Rightarrow> Inl e
              | Inr dflt \<Rightarrow>
                  Inr \<lparr>adults = Some (case map_of WORD_NUMS word of
                                          Some n \<Rightarrow> n
                                        | None \<Rightarrow> dflt),
                       children = 0\<rparr>)
      | None \<Rightarrow>
     (case re_search True couple_pat text of
        Some m \<Rightarrow> Inr \<lparr>adults = Some 2, children = 0\<rparr>
      | None \<Rightarrow> Inr \<lparr>adults = None, children = 0\<rparr>)))))"

section \<open>Floating point: \<^verbatim>\<open>float(s)\<close>, multiplication by 1000 and \<^verbatim>\<open>int(x)\<close>\<close>

text \<open>
  A Python float is an IEEE 754 double. The budget code only makes non-negative ones:
  \<open>Finite m e\<close> is the number \<open>m * 2 ^ e\<close> and \<open>Infinity\<close> is \<^verbatim>\<open>inf\<close>. \<open>to_double a b\<close>
  is the double nearest to the fraction \<open>a / b\<close> of a non-negative \<open>a\<close> and a
  positive \<open>b\<close> (ties to even, 53 bits of mantissa,
  least exponent \<open>-1074\<close>); a result of \<open>2 ^ 1024\<close> or more is \<^verbatim>\<open>inf\<close>, which is what
  both \<^verbatim>\<open>float(s)\<close> on a long digit string and the product of two floats give.
\<close>

datatype pyfloat = Finite int int | Infinity

function bit_length :: "int \<Rightarrow> int" where
  "bit_length n = (if n \<le> 0 then 0 else 1 + bit_length (n div 2))"
  by pat_completeness auto
termination
  by (relation "measure nat") auto

declare bit_length.simps [simp del]

definition floor_log2 :: "int \<Rightarrow> int \<Rightarrow> int" where
  "floor_log2 a b =
     (let d = bit_length a - bit_length b
      in if (if d \<ge> 0 then b * 2 ^ nat d \<le> a else b \<le> a * 2 ^ nat (- d)) then d else d - 1)"

definition round_div_even :: "int \<Rightarrow> int \<Rightarrow> int" where
  "round_div_even a b =
     (let q = a div b; r = a mod b
      in if 2 * r < b then q
         else if b < 2 * r then q + 1
         else if even q then q else q + 1)"

definition to_double :: "int \<Rightarrow> int \<Rightarrow> pyfloat" where
  "to_double a b =
     (if a = 0 then Finite 0 0
      else
        let e = max (floor_log2 a b - 52) (- 1074);
            m = (if e \<ge> 0 then round_div_even a (b * 2 ^ nat e)
                 else round_div_even (a * 2 ^ nat (- e)) b)
        in if 971 < e \<or> (e = 971 \<and> 2 ^ 53 \<le> m) then Infinity else Finite m e)"

text \<open>
  \<^verbatim>\<open>float(s)\<close> for the strings the budget code passes: digits, dots and white space
  (what \<^verbatim>\<open>[\d,.\s]*\<close> captures, less the commas and blanks). \<^verbatim>\<open>float\<close> drops the
  surrounding white space of the C locale (not the separators \<^verbatim>\<open>\x1c\<close> to \<^verbatim>\<open>\x1f\<close>,
  which \<^verbatim>\<open>\s\<close> and \<^verbatim>\<open>strip\<close> do count as white space); what is left must be digits
  with at most one dot and at least one digit, or \<^verbatim>\<open>ValueError\<close> is raised.
\<close>

definition is_c_space :: "char \<Rightarrow> bool" where
  "is_c_space c = (c \<in> set [CHR 0x09, CHR 0x0A, CHR 0x0B, CHR 0x0C, CHR 0x0D, CHR 0x20])"

definition py_float :: "string \<Rightarrow> error + pyfloat" where
  "py_float s =
     (let t = rev (dropWhile is_c_space (rev (dropWhile is_c_space s)));
          ip = takeWhile is_digit t
      in case dropWhile is_digit t of
           [] \<Rightarrow> if ip = [] then Inl ValueError else Inr (to_double (int_of_digits ip) 1)
         | c # fp \<Rightarrow>
             if c = CHR ''.'' \<and> list_all is_digit fp \<and> (ip \<noteq> [] \<or> fp \<noteq> [])
             then Inr (to_double (int_of_digits (ip @ fp)) (10 ^ length fp))
             else Inl ValueError)"

fun times_1000 :: "pyfloat \<Rightarrow> pyfloat" where
  "times_1000 (Finite m e) =
     (if e \<ge> 0 then to_double (1000 * m * 2 ^ nat e) 1 else to_double (1000 * m) (2 ^ nat (- e)))"
| "times_1000 Infinity = Infinity"

fun int_of_float :: "pyfloat \<Rightarrow> error + int" where
  "int_of_float (Finite m e) =
     Inr (if e \<ge> 0 then m * 2 ^ nat e else m div 2 ^ nat (- e))"
| "int_of_float Infinity = Inl OverflowError"

section \<open>Budget extractor\<close>

definition CURRENCY_SIGNS :: "(string \<times> string) list" where
  "CURRENCY_SIGNS =
     [(''$'', ''USD''),
      ([CHR 0xE2, CHR 0x82, CHR 0xAC], ''EUR''),
      ([CHR 0xC2, CHR 0xA3], ''GBP''),
      ([CHR 0xE2, CHR 0x82, CHR 0xB9], ''INR''),
      ([CHR 0xC2, CHR 0xA5], ''JPY''),
      ([CHR 0xE2, CHR 0x82, CHR 0xA9], ''KRW''),
      (''A$'', ''AUD''),
      (''C$'', ''CAD'')]"

definition CURRENCY_WORDS :: "(string \<times> string) list" where
  "CURRENCY_WORDS =
     [(''usd'', ''USD''), (''dollar'', ''USD''), (''dollars'', ''USD''),
      (''eur'', ''EUR''), (''euro'', ''EUR''), (''euros'', ''EUR''),
      (''gbp'', ''GBP''), (''pound'', ''GBP''), (''pounds'', ''GBP''),
      (''inr'', ''INR''), (''rupee'', ''INR''), (''rupees'', ''INR''),
      (''jpy'', ''JPY''), (''yen'', ''JPY''),
      (''cad'', ''CAD''), (''aud'', ''AUD'')]"

record budget_t =
  amount :: "int option"
  currency :: "string option"
  tag :: "string option"

definition normalize_budget_number :: "string \<Rightarrow> error + int" where
  "normalize_budget_number num_str =
     (let s = filter (\<lambda>c. c \<noteq> CHR '' '') (filter (\<lambda>c. c \<noteq> CHR '','') (lower num_str))
      in if s \<noteq> [] \<and> last s = CHR ''k''
         then (case py_float (butlast s) of
                 Inl ValueError \<Rightarrow> Inr 0
               | Inl OverflowError \<Rightarrow> Inl OverflowError
               | Inr x \<Rightarrow> int_of_float (times_1000 x))
         else (case py_float s of
                 Inl ValueError \<Rightarrow> Inr 0
               | Inl OverflowError \<Rightarrow> Inl OverflowError
               | Inr x \<Rightarrow> int_of_float x))"

definition number_token :: regex where
  "number_token = Seq (Rep True 0 None (Pos [Dg, Ch CHR '','', Ch CHR ''.'', Sp])) (Opt (Lit ''k''))"

definition sign_pat :: "string \<Rightarrow> regex" where
  "sign_pat sign = seqs [Lit sign, ws0, Grp 1 number_token]"

definition currency_word_pat :: regex where
  "currency_word_pat =
     seqs [WordB, Grp 1 (Seq (One (Pos [Dg])) number_token), ws0,
           Grp 2 (Alt (alts [''usd'', ''eur'', ''gbp'', ''inr'', ''jpy'', ''cad'', ''aud''])
                   (Alt (Seq (Lit ''dollar'') (Opt (Lit ''s'')))
                   (Alt (Seq (Lit ''euro'') (Opt (Lit ''s'')))
                   (Alt (Seq (Lit ''pound'') (Opt (Lit ''s'')))
                   (Alt (Seq (Lit ''rupee'') (Opt (Lit ''s'')))
                        (Lit ''yen'')))))),
           WordB]"

definition budget_number_pat :: regex where
  "budget_number_pat =
     seqs [WordB, Lit ''budget'',
           Opt (Alt (Seq ws1 (Lit ''of'')) (Seq ws0 (One (Pos [Ch CHR '':'', Ch CHR ''=''])))),
           ws0, Grp 1 (Seq (One (Pos [Dg])) number_token), WordB]"

definition dash_or_space :: regex where
  "dash_or_space = Opt (One (Pos [Ch CHR ''-'', Ch CHR '' '']))"

definition budget_friendly_pat :: regex where
  "budget_friendly_pat =
     Alt (seqs [WordB, Lit ''budget'', dash_or_space, Lit ''friendly''])
    (Alt (Lit ''cheap'')
    (Alt (Lit ''affordable'')
         (seqs [Lit ''low'', dash_or_space, Lit ''cost'', WordB])))"

definition luxury_pat :: regex where
  "luxury_pat =
     Alt (Seq WordB (Lit ''luxury''))
    (Alt (Lit ''luxurious'')
    (Alt (seqs [Lit ''high'', dash_or_space, Lit ''end''])
    (Alt (Lit ''premium'')
         (seqs [Lit ''5'', dash_or_space, Lit ''star'', WordB]))))"

definition mid_range_pat :: regex where
  "mid_range_pat =
     Alt (seqs [WordB, Lit ''mid'', dash_or_space, Lit ''range''])
    (Alt (Lit ''moderate'')
         (Seq (Lit ''standard'') WordB))"

fun budget_keywords :: "string \<Rightarrow> budget_t" where
  "budget_keywords text =
     (if re_search True budget_friendly_pat text \<noteq> None
      then \<lparr>amount = None, currency = None, tag = Some ''budget-friendly''\<rparr>
      else if re_search True luxury_pat text \<noteq> None
      then \<lparr>amount = None, currency = None, tag = Some ''luxury''\<rparr>
      else if re_search True mid_range_pat text \<noteq> None
      then \<lparr>amount = None, currency = None, tag = Some ''mid-range''\<rparr>
      else \<lparr>amount = None, currency = None, tag = None\<rparr>)"

definition budget_words :: "string \<Rightarrow> error + budget_t" where
  "budget_words text =
     (case re_search True currency_word_pat text of
        Some m \<Rightarrow>
          (case normalize_budget_number (the (m_groups m 1)) of
             Inl e \<Rightarrow> Inl e
           | Inr amt \<Rightarrow>
               Inr \<lparr>amount = Some amt,
                    currency = Some (case map_of CURRENCY_WORDS (lower (the (m_groups m 2))) of
                                       Some cur \<Rightarrow> cur | None \<Rightarrow> ''USD''),
                    tag = None\<rparr>)
      | None \<Rightarrow>
     (case re_search True budget_number_pat text of
        Some m \<Rightarrow>
          (case normalize_budget_number (the (m_groups m 1)) of
             Inl e \<Rightarrow> Inl e
           | Inr amt \<Rightarrow>
               if amt \<noteq> 0 then Inr \<lparr>amount = Some amt, currency = Some ''USD'', tag = None\<rparr>
               else Inr (budget_keywords text))
      | None \<Rightarrow> Inr (budget_keywords text)))"

text \<open>
  The loop over the currency signs, in the table's order: a sign whose first occurrence
  is followed by a number that normalises to a non-zero amount returns; otherwise the
  next sign is tried, and after the last one the rules for currency words follow.
\<close>

fun budget_signs :: "string \<Rightarrow> (string \<times> string) list \<Rightarrow> error + budget_t" where
  "budget_signs text [] = budget_words text"
| "budget_signs text ((sign, code) # rest) =
     (case re_search True (sign_pat sign) text of
        None \<Rightarrow> budget_signs text rest
      | Some m \<Rightarrow>
          if strip (the (m_groups m 1)) = [] then budget_signs text rest
          else (case normalize_budget_number (the (m_groups m 1)) of
                  Inl e \<Rightarrow> Inl e
                | Inr amt \<Rightarrow>
                    if amt \<noteq> 0
                    then Inr \<lparr>amount = Some amt, currency = Some code, tag = None\<rparr>
                    else budget_signs text rest))"

definition find_budget :: "string \<Rightarrow> error + budget_t" where
  "find_budget text = budget_signs text CURRENCY_SIGNS"

section \<open>Date window resolver\<close>

definition MONTHS :: "(string \<times> int) list" where
  "MONTHS =
     [(''january'', 1), (''february'', 2), (''march'', 3), (''april'', 4), (''may'', 5),
      (''june'', 6), (''july'', 7), (''august'', 8), (''september'', 9), (''october'', 10),
      (''november'', 11), (''december'', 12)]"

definition MONTH_ABBR :: "(string \<times> int) list" where
  "MONTH_ABBR = map (\<lambda>(m, n). (take 3 m, n)) MONTHS"

definition mon_num :: "string \<Rightarrow> int option" where
  "mon_num tok =
     (case map_of MONTHS (lower tok) of
        Some n \<Rightarrow> Some n
      | None \<Rightarrow> map_of MONTH_ABBR (take 3 (lower tok)))"

text \<open>
  \<^verbatim>\<open>datetime.date(y, m, d)\<close> raises \<^verbatim>\<open>ValueError\<close> outside the calendar (here
  \<open>None\<close>, since the source catches it on the spot); \<^verbatim>\<open>isoformat()\<close> pads the year to
  four digits and month and day to two.
\<close>

record date =
  d_year :: int
  d_month :: int
  d_day :: int

definition is_leap :: "int \<Rightarrow> bool" where
  "is_leap y = (y mod 4 = 0 \<and> (y mod 100 \<noteq> 0 \<or> y mod 400 = 0))"

definition days_in_month :: "int \<Rightarrow> int \<Rightarrow> int" where
  "days_in_month y m =
     (if m = 2 then (if is_leap y then 29 else 28)
      else if m = 4 \<or> m = 6 \<or> m = 9 \<or> m = 11 then 30 else 31)"

definition py_date :: "int \<Rightarrow> int \<Rightarrow> int \<Rightarrow> date option" where
  "py_date y m d =
     (if 1 \<le> y \<and> y \<le> 9999 \<and> 1 \<le> m \<and> m \<le> 12 \<and> 1 \<le> d \<and> d \<le> days_in_month y m
      then Some \<lparr>d_year = y, d_month = m, d_day = d\<rparr> else None)"

definition digit_chr :: "int \<Rightarrow> char" where
  "digit_chr n = ''0123456789'' ! nat (n mod 10)"

definition isoformat :: "date \<Rightarrow> string" where
  "isoformat dt =
     [digit_chr (d_year dt div 1000), digit_chr (d_year dt div 100),
      digit_chr (d_year dt div 10), digit_chr (d_year dt)] @ ''-'' @
     [digit_chr (d_month dt div 10), digit_chr (d_month dt)] @ ''-'' @
     [digit_chr (d_day dt div 10), digit_chr (d_day dt)]"

record window =
  w_start_date :: "string option"
  w_end_date :: "string option"
  w_month :: "int option"

definition en_dash :: string where "en_dash = [CHR 0xE2, CHR 0x80, CHR 0x93]"
definition em_dash :: string where "em_dash = [CHR 0xE2, CHR 0x80, CHR 0x94]"

definition iso_date :: regex where
  "iso_date = seqs [digits 4 4, Lit ''-'', digits 2 2, Lit ''-'', digits 2 2]"

definition iso_pat :: regex where
  "iso_pat =
     seqs [Grp 1 iso_date, ws0, alts [''to'', ''-'', en_dash, em_dash], ws0, Grp 2 iso_date]"

definition month_word :: regex where
  "month_word = Rep True 3 (Some 9) (Pos [Rng CHR ''A'' CHR ''Z'', Rng CHR ''a'' CHR ''z''])"

definition ordinal :: regex where
  "ordinal = Opt (alts [''st'', ''nd'', ''rd'', ''th''])"

definition range_word :: regex where
  "range_word =
     alts [''to'', ''-'', en_dash, em_dash, ''through'', ''thru'', ''until'', ''till'',
           ''up to'', ''up-to'']"

definition trailing_year :: "nat \<Rightarrow> regex" where
  "trailing_year n = Opt (seqs [ws0, Opt (Lit '',''), ws0, Grp n (digits 4 4)])"

definition pat1 :: regex where
  "pat1 =
     seqs [WordB, Grp 1 month_word, ws1, Grp 2 (digits 1 2), ordinal,
           ws0, Opt (seqs [Opt (Lit '',''), ws0, Grp 3 (digits 4 4)]), ws0,
           range_word, ws0,
           Opt (Seq (Grp 4 month_word) ws1), Grp 5 (digits 1 2), ordinal,
           trailing_year 6]"

definition pat2 :: regex where
  "pat2 =
     seqs [WordB, Grp 1 (digits 1 2), ordinal, ws0,
           range_word, ws0,
           Grp 2 (digits 1 2), ordinal, ws0,
           Grp 3 month_word,
           trailing_year 4]"

definition pat3 :: regex where
  "pat3 =
     seqs [WordB, Lit ''between'', ws1, Grp 1 month_word, ws1, Grp 2 (digits 1 2), ordinal, ws1,
           Lit ''and'', ws1, Grp 3 (digits 1 2), ordinal, trailing_year 4]"

definition plain_month_pat :: regex where
  "plain_month_pat = seqs [WordB, Opt (Seq (Lit ''in'') ws1), Grp 1 month_word, WordB]"

definition date_window :: "date option \<Rightarrow> date option \<Rightarrow> window option" where
  "date_window start end =
     (case (start, end) of
        (Some s, Some e) \<Rightarrow>
          Some \<lparr>w_start_date = Some (isoformat s), w_end_date = Some (isoformat e), w_month = None\<rparr>
      | _ \<Rightarrow> None)"

text \<open>
  Each rule of the cascade gives \<open>Some\<close> window when it returns and \<open>None\<close> when the
  source goes on to the next rule (no match, an unknown month name, or a date that
  \<^verbatim>\<open>datetime.date\<close> refuses). \<open>year_now\<close> is \<^verbatim>\<open>datetime.date.today().year\<close>.
\<close>

definition window_iso :: "string \<Rightarrow> window option" where
  "window_iso T =
     (case re_search False iso_pat T of
        Some m \<Rightarrow> Some \<lparr>w_start_date = m_groups m 1, w_end_date = m_groups m 2, w_month = None\<rparr>
      | None \<Rightarrow> None)"

definition window_pat1 :: "int \<Rightarrow> string \<Rightarrow> window option" where
  "window_pat1 year_now T =
     (case re_search True pat1 T of
        None \<Rightarrow> None
      | Some m \<Rightarrow>
          (let sm = mon_num (the (m_groups m 1));
               em = (case m_groups m 4 of Some emon \<Rightarrow> mon_num emon | None \<Rightarrow> sm)
           in case (sm, em) of
                (Some sm', Some em') \<Rightarrow>
                  (let sd_i = strip_ord (the (m_groups m 2));
                       ed_i = strip_ord (the (m_groups m 5));
                       sy_i = (case m_groups m 3 of Some sy \<Rightarrow> int_of_digits sy | None \<Rightarrow> year_now);
                       ey_i = (case m_groups m 6 of Some ey \<Rightarrow> int_of_digits ey | None \<Rightarrow> sy_i)
                   in date_window (py_date sy_i sm' sd_i) (py_date ey_i em' ed_i))
              | _ \<Rightarrow> None))"

definition window_pat2 :: "int \<Rightarrow> string \<Rightarrow> window option" where
  "window_pat2 year_now T =
     (case re_search True pat2 T of
        None \<Rightarrow> None
      | Some m \<Rightarrow>
          (case mon_num (the (m_groups m 3)) of
             None \<Rightarrow> None
           | Some mm \<Rightarrow>
               (let sd_i = strip_ord (the (m_groups m 1));
                    ed_i = strip_ord (the (m_groups m 2));
                    y = (case m_groups m 4 of Some yr \<Rightarrow> int_of_digits yr | None \<Rightarrow> year_now)
                in date_window (py_date y mm sd_i) (py_date y mm ed_i))))"

definition window_pat3 :: "int \<Rightarrow> string \<Rightarrow> window option" where
  "window_pat3 year_now T =
     (case re_search True pat3 T of
        None \<Rightarrow> None
      | Some m \<Rightarrow>
          (case mon_num (the (m_groups m 1)) of
             None \<Rightarrow> None
           | Some mm \<Rightarrow>
               (let sd_i = strip_ord (the (m_groups m 2));
                    ed_i = strip_ord (the (m_groups m 3));
                    y = (case m_groups m 4 of Some yr \<Rightarrow> int_of_digits yr | None \<Rightarrow> year_now)
                in date_window (py_date y mm sd_i) (py_date y mm ed_i))))"

definition window_plain_month :: "string \<Rightarrow> window option" where
  "window_plain_month T =
     (case re_search False plain_month_pat T of
        None \<Rightarrow> None
      | Some m \<Rightarrow>
          (case mon_num (the (m_groups m 1)) of
             None \<Rightarrow> None
           | Some month_num \<Rightarrow>
               Some \<lparr>w_start_date = None, w_end_date = None, w_month = Some month_num\<rparr>))"

definition first_some :: "'a option list \<Rightarrow> 'a option" where
  "first_some xs = (case filter (\<lambda>x. x \<noteq> None) xs of [] \<Rightarrow> None | x # _ \<Rightarrow> x)"

definition find_month_or_window :: "int \<Rightarrow> string \<Rightarrow> window" where
  "find_month_or_window year_now text =
     (case first_some [window_iso text, window_pat1 year_now text, window_pat2 year_now text,
                       window_pat3 year_now text, window_plain_month text] of
        Some out \<Rightarrow> out
      | None \<Rightarrow> \<lparr>w_start_date = None, w_end_date = None, w_month = None\<rparr>)"

section \<open>Destination and origin extractor\<close>

text \<open>
  \<^verbatim>\<open>str.title()\<close>: a letter that follows a letter is lowered, any other letter is
  raised.
\<close>

fun title_from :: "bool \<Rightarrow> string \<Rightarrow> string" where
  "title_from prev_cased [] = []"
| "title_from prev_cased (c # cs) =
     (if prev_cased then lower_chr c else upper_chr c) # title_from (is_upper c \<or> is_lower c) cs"

definition title :: "string \<Rightarrow> string" where
  "title s = title_from False s"

definition place_name :: regex where
  "place_name =
     Seq (One (Pos [Rng CHR ''A'' CHR ''Z'']))
         (Rep False 1 None (Pos [Wd, Ch CHR ''-'', Sp]))"

definition destination_pat :: regex where
  "destination_pat =
     seqs [Alt (seqs [Lit ''trip'', ws1, Lit ''to''])
          (Alt (seqs [Lit ''travel'', ws1, Lit ''to''])
          (Alt (seqs [Lit ''fly'', ws1, Lit ''to''])
          (Alt (Lit ''to'') (Lit ''visit'')))),
           ws1, Grp 1 place_name,
           Look (Alt (Seq ws1 (Lit ''for''))
                (Alt (Seq ws1 (Lit ''with''))
                (Alt (Seq ws1 (Lit ''in''))
                (Alt (Seq ws1 (Lit ''on''))
                (Alt (Seq ws1 (Lit ''by''))
                (Alt (Lit '','')
                (Alt (Lit ''.'') Eos)))))))]"

definition departure_pat :: regex where
  "departure_pat =
     seqs [WordB, Lit ''from'', ws1, Grp 1 place_name,
           Look (Alt (Seq ws1 (Lit ''to''))
                (Alt (Seq ws1 (Lit ''for''))
                (Alt (Lit '','')
                (Alt (Lit ''.'') Eos))))]"

definition find_destination :: "string \<Rightarrow> string option" where
  "find_destination text =
     (case re_search True destination_pat text of
        Some m \<Rightarrow> Some (title (clean (the (m_groups m 1))))
      | None \<Rightarrow> None)"

definition find_departure_city :: "string \<Rightarrow> string option" where
  "find_departure_city text =
     (case re_search True departure_pat text of
        Some m \<Rightarrow> Some (title (clean (the (m_groups m 1))))
      | None \<Rightarrow> None)"

section \<open>Interest tagger\<close>

definition INTEREST_KEYWORDS :: "(string \<times> string list) list" where
  "INTEREST_KEYWORDS =
     [(''art'', [''art'', ''museum'', ''galleries'', ''gallery'', ''exhibition'']),
      (''food'', [''food'', ''cuisine'', ''restaurant'', ''dining'', ''culinary'', ''street food'']),
      (''history'', [''history'', ''historic'', ''heritage'', ''castle'', ''monument'', ''ruins'']),
      (''nature'', [''nature'', ''hike'', ''hiking'', ''park'', ''outdoors'', ''mountain'', ''forest'']),
      (''adventure'', [''adventure'', ''kayak'', ''ski'', ''surf'', ''dive'', ''zipline'', ''trek'',
                       ''climb'']),
      (''nightlife'', [''nightlife'', ''club'', ''bars'', ''bar'', ''pub'', ''party'']),
      (''shopping'', [''shopping'', ''shop'', ''boutique'', ''mall'', ''market'', ''souvenir'']),
      (''family'', [''family'', ''kids'', ''children'', ''zoo'', ''theme park'']),
      (''romance'', [''romance'', ''honeymoon'', ''couple'', ''romantic''])]"

definition keyword_pat :: "string \<Rightarrow> regex" where
  "keyword_pat w = seqs [WordB, Lit w, WordB]"

text \<open>
  The inner loop adds the tag at the first trigger word found and breaks; the outer loop
  collects the tags in a set, which \<^verbatim>\<open>sorted\<close> turns into an ascending list.
\<close>

definition has_keyword :: "string \<Rightarrow> string list \<Rightarrow> bool" where
  "has_keyword text ws = list_ex (\<lambda>w. re_search True (keyword_pat w) text \<noteq> None) ws"

fun interest_hits :: "string \<Rightarrow> (string \<times> string list) list \<Rightarrow> string set \<Rightarrow> string set" where
  "interest_hits text [] hits = hits"
| "interest_hits text ((tg, ws) # rest) hits =
     interest_hits text rest (if has_keyword text ws then insert tg hits else hits)"

definition find_interests :: "string \<Rightarrow> string list" where
  "find_interests text = sorted_list_of_set (interest_hits text INTEREST_KEYWORDS {})"

section \<open>Constraint extractor\<close>

definition constraint_keywords :: "string list" where
  "constraint_keywords = [''must'', ''need'', ''avoid'', ''no '', ''prefer'', ''nonstop'', ''non-stop'']"

definition constraint_pat :: "string \<Rightarrow> regex" where
  "constraint_pat kw =
     seqs [WordB, Lit kw, WordB,
           Rep True 0 None (Neg [Ch CHR ''.'', Ch CHR '','', Ch CHR '';''])]"

fun dedup :: "string set \<Rightarrow> string list \<Rightarrow> string list" where
  "dedup seen [] = []"
| "dedup seen (c # cs) =
     (if lower c \<in> seen then dedup seen cs else c # dedup (insert (lower c) seen) cs)"

definition find_constraints :: "string \<Rightarrow> string list" where
  "find_constraints text =
     dedup {}
       (concat (map (\<lambda>kw. map (\<lambda>m. clean (m_whole m)) (re_finditer True (constraint_pat kw) text))
                    constraint_keywords))"

section \<open>Orchestrator\<close>

record tripspec =
  destination :: "string option"
  departure_city :: "string option"
  month :: "int option"
  start_date :: "string option"
  end_date :: "string option"
  duration_days :: "int option"
  travelers :: travelers_t
  budget :: budget_t
  interests :: "string list"
  constraints :: "string list"
  spec_notes :: string

text \<open>
  \<open>parse_trip_request\<close> returns \<open>Inr spec\<close> for the source's
  \<^verbatim>\<open>{"status": "success", "spec": result}\<close> and \<open>Inl e\<close> when the exception \<open>e\<close> leaves
  the function. The extractors run in the source's order; the traveler resolver and,
  after it, the budget extractor can raise.
\<close>

definition parse_trip_request :: "int \<Rightarrow> string \<Rightarrow> error + tripspec" where
  "parse_trip_request year_now text0 =
     (let text = strip text0;
          dest = find_destination text;
          departure = find_departure_city text;
          win = find_month_or_window year_now text;
          duration = find_duration_days text
      in case find_travelers text of
           Inl e \<Rightarrow> Inl e
         | Inr trav \<Rightarrow>
      (case find_budget text of
           Inl e \<Rightarrow> Inl e
         | Inr bud \<Rightarrow>
             Inr \<lparr>destination = dest,
                  departure_city = departure,
                  month = w_month win,
                  start_date = w_start_date win,
                  end_date = w_end_date win,
                  duration_days = duration,
                  travelers = \<lparr>adults = adults trav, children = children trav\<rparr>,
                  budget = \<lparr>amount = amount bud, currency = currency bud, tag = tag bud\<rparr>,
                  interests = find_interests text,
                  constraints = find_constraints text,
                  spec_notes = text\<rparr>))"

section \<open>Groups that every match sets\<close>

text \<open>
  \<open>sure_groups r\<close> are the groups that take part in every match of \<open>r\<close>: those not
  under an optional part, and under both sides of an alternation. \<^verbatim>\<open>m.group(n)\<close> is a
  string, never \<^verbatim>\<open>None\<close>, for such a group.
\<close>

fun sure_groups :: "regex \<Rightarrow> nat set" where
  "sure_groups (Grp n r) = insert n (sure_groups r)"
| "sure_groups (Seq r1 r2) = sure_groups r1 \<union> sure_groups r2"
| "sure_groups (Alt r1 r2) = sure_groups r1 \<inter> sure_groups r2"
| "sure_groups (Look r) = sure_groups r"
| "sure_groups r = {}"

lemma rmatch_seq_elim:
  assumes "res \<in> set (rmatch ic (Seq r1 r2) cur g)"
  obtains cur1 g1 where "(cur1, g1) \<in> set (rmatch ic r1 cur g)"
    and "res \<in> set (rmatch ic r2 cur1 g1)"
  using assms by auto

lemma rmatch_caps_mono:
  "(cur', g') \<in> set (rmatch ic r cur g) \<Longrightarrow> g n \<noteq> None \<Longrightarrow> g' n \<noteq> None"
proof (induction r arbitrary: cur g cur' g')
  case (Lit s)
  then show ?case
    by (cases "lit_match ic s (fst cur) (snd cur)") auto
next
  case (One cs)
  then show ?case
    by (cases "snd cur") (auto split: if_splits)
next
  case (Rep greedy least most cs)
  then show ?case
    by auto
next
  case (Seq r1 r2)
  from Seq.prems(1) obtain cur1 g1 where
    a: "(cur1, g1) \<in> set (rmatch ic r1 cur g)" and b: "(cur', g') \<in> set (rmatch ic r2 cur1 g1)"
    by (rule rmatch_seq_elim)
  from Seq.IH(1)[OF a Seq.prems(2)] have "g1 n \<noteq> None" .
  from Seq.IH(2)[OF b this] show ?case .
next
  case (Alt r1 r2)
  from Alt.prems(1) have
    "(cur', g') \<in> set (rmatch ic r1 cur g) \<or> (cur', g') \<in> set (rmatch ic r2 cur g)"
    by simp
  with Alt.IH Alt.prems(2) show ?case
    by blast
next
  case (Opt r)
  from Opt.prems(1) have "(cur', g') \<in> set (rmatch ic r cur g) \<or> g' = g"
    by auto
  with Opt.IH Opt.prems(2) show ?case
    by blast
next
  case (Grp k r)
  from Grp.prems(1) obtain g0 where a: "(cur', g0) \<in> set (rmatch ic r cur g)"
    and b: "g' = g0(k \<mapsto> take (length (snd cur) - length (snd cur')) (snd cur))"
    by auto
  from Grp.IH[OF a Grp.prems(2)] b show ?case
    by simp
next
  case WordB
  then show ?case
    by (auto split: if_splits)
next
  case Eos
  then show ?case
    by (auto split: if_splits)
next
  case (Look r)
  show ?case
  proof (cases "rmatch ic r cur g")
    case Nil
    with Look.prems(1) show ?thesis
      by simp
  next
    case (Cons res rest)
    with Look.prems(1) have "g' = snd res"
      by (cases res) simp
    moreover from Cons have "(fst res, snd res) \<in> set (rmatch ic r cur g)"
      by simp
    ultimately show ?thesis
      using Look.IH Look.prems(2) by blast
  qed
qed

lemma rmatch_sure_groups:
  "(cur', g') \<in> set (rmatch ic r cur g) \<Longrightarrow> n \<in> sure_groups r \<Longrightarrow> g' n \<noteq> None"
proof (induction r arbitrary: cur g cur' g')
  case (Seq r1 r2)
  from Seq.prems(1) obtain cur1 g1 where
    a: "(cur1, g1) \<in> set (rmatch ic r1 cur g)" and b: "(cur', g') \<in> set (rmatch ic r2 cur1 g1)"
    by (rule rmatch_seq_elim)
  from Seq.prems(2) have "n \<in> sure_groups r1 \<or> n \<in> sure_groups r2"
    by simp
  then show ?case
  proof
    assume "n \<in> sure_groups r1"
    from Seq.IH(1)[OF a this] have "g1 n \<noteq> None" .
    from rmatch_caps_mono[OF b this] show ?thesis .
  next
    assume "n \<in> sure_groups r2"
    from Seq.IH(2)[OF b this] show ?thesis .
  qed
next
  case (Alt r1 r2)
  from Alt.prems(1) have
    "(cur', g') \<in> set (rmatch ic r1 cur g) \<or> (cur', g') \<in> set (rmatch ic r2 cur g)"
    by simp
  moreover from Alt.prems(2) have "n \<in> sure_groups r1" and "n \<in> sure_groups r2"
    by simp_all
  ultimately show ?case
    using Alt.IH by blast
next
  case (Grp k r)
  from Grp.prems(1) obtain g0 where a: "(cur', g0) \<in> set (rmatch ic r cur g)"
    and b: "g' = g0(k \<mapsto> take (length (snd cur) - length (snd cur')) (snd cur))"
    by auto
  show ?case
  proof (cases "n = k")
    case True
    with b show ?thesis
      by simp
  next
    case False
    with Grp.prems(2) have "n \<in> sure_groups r"
      by simp
    from Grp.IH[OF a this] b False show ?thesis
      by simp
  qed
next
  case (Look r)
  show ?case
  proof (cases "rmatch ic r cur g")
    case Nil
    with Look.prems(1) show ?thesis
      by simp
  next
    case (Cons res rest)
    with Look.prems(1) have "g' = snd res"
      by (cases res) simp
    moreover from Cons have "(fst res, snd res) \<in> set (rmatch ic r cur g)"
      by simp
    moreover from Look.prems(2) have "n \<in> sure_groups r"
      by simp
    ultimately show ?thesis
      using Look.IH by blast
  qed
qed simp_all

lemma search_at_sure_groups:
  "search_at ic r p t = Some m \<Longrightarrow> n \<in> sure_groups r \<Longrightarrow> m_groups m n \<noteq> None"
proof (induction ic r p t rule: search_at.induct)
  case (1 ic r p)
  then obtain res rest where r: "rmatch ic r (p, []) Map.empty = res # rest"
    and m: "m = mk_match p [] res"
    by (auto split: list.splits)
  from r have "(fst res, snd res) \<in> set (rmatch ic r (p, []) Map.empty)"
    by simp
  from rmatch_sure_groups[OF this "1.prems"(2)] m show ?case
    by (simp add: mk_match_def)
next
  case (2 ic r p c t)
  show ?case
  proof (cases "rmatch ic r (p, c # t) Map.empty")
    case Nil
    with 2 show ?thesis
      by simp
  next
    case (Cons res rest)
    then have "(fst res, snd res) \<in> set (rmatch ic r (p, c # t) Map.empty)"
      by simp
    from rmatch_sure_groups[OF this "2.prems"(2)] have "snd res n \<noteq> None" .
    moreover from "2.prems"(1) Cons have "m = mk_match p (c # t) res"
      by simp
    ultimately show ?thesis
      by (simp add: mk_match_def)
  qed
qed

section \<open>The first match on a run of digits\<close>

text \<open>
  \<open>first_try\<close> is the head of \<open>rmatch\<close>: the match the backtracking matcher reports at
  a cursor. Where each part of a sequence succeeds at its first try, so does the sequence.
\<close>

definition first_try :: "bool \<Rightarrow> regex \<Rightarrow> cursor \<Rightarrow> caps \<Rightarrow> (cursor \<times> caps) option" where
  "first_try ic r cur g = (case rmatch ic r cur g of [] \<Rightarrow> None | res # _ \<Rightarrow> Some res)"

lemma first_try_Lit:
  "lit_match ic s p t = Some cur' \<Longrightarrow> first_try ic (Lit s) (p, t) g = Some (cur', g)"
  by (simp add: first_try_def)

lemma first_try_Seq:
  assumes "first_try ic r1 cur g = Some (cur1, g1)"
    and "first_try ic r2 cur1 g1 = Some res"
  shows "first_try ic (Seq r1 r2) cur g = Some res"
proof -
  from assms(1) obtain rest1 where a: "rmatch ic r1 cur g = (cur1, g1) # rest1"
    by (auto simp: first_try_def split: list.splits)
  from assms(2) obtain rest2 where b: "rmatch ic r2 cur1 g1 = res # rest2"
    by (auto simp: first_try_def split: list.splits)
  from a b show ?thesis
    by (simp add: first_try_def)
qed

lemma first_try_Rep_greedy:
  assumes "length (takeWhile (in_cset ic cs) t) = k" and "least \<le> k"
  shows "first_try ic (Rep True least None cs) (p, t) g = Some ((rev (take k t) @ p, drop k t), g)"
proof -
  from assms(2) have "rev [least ..< Suc k] = k # rev [least ..< k]"
    by simp
  with assms(1) show ?thesis
    by (simp add: first_try_def rep_counts_def advance_def)
qed

lemma first_try_Grp:
  assumes "first_try ic r (p, t) g = Some ((p', t'), g')"
  shows "first_try ic (Grp n r) (p, t) g =
           Some ((p', t'), g'(n \<mapsto> take (length t - length t') t))"
proof -
  from assms obtain rest where "rmatch ic r (p, t) g = ((p', t'), g') # rest"
    by (auto simp: first_try_def split: list.splits)
  then show ?thesis
    by (simp add: first_try_def)
qed

lemma first_try_WordB: "at_boundary cur \<Longrightarrow> first_try ic WordB cur g = Some (cur, g)"
  by (simp add: first_try_def)

lemma first_try_Opt_skip:
  "rmatch ic r cur g = [] \<Longrightarrow> first_try ic (Opt r) cur g = Some (cur, g)"
  by (simp add: first_try_def)

lemma search_at_first_try:
  assumes "first_try ic r (p, t) Map.empty = Some res"
  shows "search_at ic r p t = Some (mk_match p t res)"
proof -
  from assms obtain rest where "rmatch ic r (p, t) Map.empty = res # rest"
    by (auto simp: first_try_def split: list.splits)
  then show ?thesis
    by (cases t) simp_all
qed

text \<open>Decimal digits are word characters, have no case and are not white space.\<close>

lemma digit_ord: "is_digit c \<Longrightarrow> (48::nat) \<le> of_char c \<and> of_char c \<le> (57::nat)"
  by (simp add: is_digit_def less_eq_char_def)

lemma digit_not_space: "is_digit c \<Longrightarrow> \<not> is_space c"
proof
  assume d: "is_digit c" and "is_space c"
  from \<open>is_space c\<close> have "of_char c < (48::nat)"
    unfolding is_space_def by (simp only: list.set insert_iff empty_iff) (elim disjE; simp)
  with digit_ord[OF d] show False
    by simp
qed

lemma digit_not_c_space: "is_digit c \<Longrightarrow> \<not> is_c_space c"
proof
  assume d: "is_digit c" and "is_c_space c"
  from \<open>is_c_space c\<close> have "of_char c < (48::nat)"
    unfolding is_c_space_def by (simp only: list.set insert_iff empty_iff) (elim disjE; simp)
  with digit_ord[OF d] show False
    by simp
qed

lemma digit_is_word: "is_digit c \<Longrightarrow> is_word c"
  by (simp add: is_word_def)

lemma digit_not_letter:
  assumes "is_digit c"
  shows "c \<notin> set upper_letters" and "c \<notin> set lower_letters"
proof -
  show "c \<notin> set upper_letters"
  proof
    assume "c \<in> set upper_letters"
    then have "(57::nat) < of_char c"
      unfolding upper_letters_def by (simp only: list.set insert_iff empty_iff) (elim disjE; simp)
    with digit_ord[OF assms] show False
      by simp
  qed
  show "c \<notin> set lower_letters"
  proof
    assume "c \<in> set lower_letters"
    then have "(57::nat) < of_char c"
      unfolding lower_letters_def by (simp only: list.set insert_iff empty_iff) (elim disjE; simp)
    with digit_ord[OF assms] show False
      by simp
  qed
qed

lemma letters_length: "length upper_letters = length lower_letters"
  by (simp add: upper_letters_def lower_letters_def)

lemma digit_lower_chr: "is_digit c \<Longrightarrow> lower_chr c = c"
  using digit_not_letter(1)[of c] map_of_zip_is_None[OF letters_length, of c]
  by (simp add: lower_chr_def)

lemma digit_upper_chr: "is_digit c \<Longrightarrow> upper_chr c = c"
  using digit_not_letter(2)[of c] map_of_zip_is_None[OF letters_length[symmetric], of c]
  by (simp add: upper_chr_def)

lemma digit_not_sep:
  assumes "is_digit c"
  shows "c \<noteq> CHR '',''" and "c \<noteq> CHR '' ''" and "c \<noteq> CHR ''k''"
  using digit_ord[OF assms] by auto

lemma digit_in_Dg: "is_digit c \<Longrightarrow> in_items ic (Dg # items) c"
  by (simp add: in_items_def)

lemma digit_not_in_Sp: "is_digit c \<Longrightarrow> \<not> in_items ic [Sp] c"
  by (simp add: in_items_def digit_lower_chr digit_upper_chr digit_not_space)

lemma takeWhile_digits_all:
  "list_all is_digit ds \<Longrightarrow> takeWhile (in_cset ic (Pos (Dg # items))) ds = ds"
  by (simp add: takeWhile_eq_all_conv list_all_iff digit_in_Dg)

lemma takeWhile_digits_space:
  "list_all is_digit ds \<Longrightarrow> takeWhile (in_cset ic (Pos [Sp])) ds = []"
  by (cases ds) (simp_all add: digit_not_in_Sp)

lemma strip_digits:
  assumes "list_all is_digit ds"
  shows "strip ds = ds"
proof -
  from assms have "list_all is_digit (rev ds)"
    by (simp add: list_all_iff)
  then have a: "dropWhile is_space (rev ds) = rev ds"
    by (cases "rev ds") (simp_all add: digit_not_space)
  from assms have b: "dropWhile is_space ds = ds"
    by (cases ds) (simp_all add: digit_not_space)
  from a b show ?thesis
    by (simp add: strip_def)
qed


lemma letter_is_word:
  "c \<in> set upper_letters \<Longrightarrow> is_word c" "c \<in> set lower_letters \<Longrightarrow> is_word c"
proof -
  assume "c \<in> set upper_letters"
  then have "is_upper c"
    unfolding upper_letters_def is_upper_def
    by (simp only: list.set insert_iff empty_iff) (elim disjE; simp)
  then show "is_word c"
    by (simp add: is_word_def)
next
  assume "c \<in> set lower_letters"
  then have "is_lower c"
    unfolding lower_letters_def is_lower_def
    by (simp only: list.set insert_iff empty_iff) (elim disjE; simp)
  then show "is_word c"
    by (simp add: is_word_def)
qed

lemma nonword_case:
  assumes "\<not> is_word c"
  shows "lower_chr c = c" and "upper_chr c = c"
  using assms letter_is_word[of c] map_of_zip_is_None[OF letters_length, of c]
    map_of_zip_is_None[OF letters_length[symmetric], of c]
  by (auto simp: lower_chr_def upper_chr_def)

lemma nonword_not_in_Dg: "\<not> is_word c \<Longrightarrow> \<not> in_items ic [Dg] c"
  by (simp add: in_items_def nonword_case is_word_def)

lemma takeWhile_digits_then:
  assumes "list_all is_digit ds" and "post = [] \<or> \<not> is_word (hd post)"
  shows "takeWhile (in_cset ic (Pos [Dg])) (ds @ post) = ds"
proof -
  from assms(2) have "takeWhile (in_cset ic (Pos [Dg])) post = []"
    by (cases post) (auto simp: nonword_not_in_Dg)
  moreover from assms(1) have "\<forall>c\<in>set ds. in_cset ic (Pos [Dg]) c"
    by (simp add: list_all_iff digit_in_Dg)
  ultimately show ?thesis
    by simp
qed


text \<open>When a part of a sequence has no match, neither has the sequence.\<close>

lemma rmatch_Seq_Nil: "rmatch ic r1 cur g = [] \<Longrightarrow> rmatch ic (Seq r1 r2) cur g = []"
  by simp

lemma rmatch_WordB_Seq_Nil: "rmatch ic r cur g = [] \<Longrightarrow> rmatch ic (Seq WordB r) cur g = []"
  by simp

lemma search_at_None:
  assumes "\<And>p t. list_all P t \<Longrightarrow> rmatch ic r (p, t) Map.empty = []"
  shows "list_all P t \<Longrightarrow> search_at ic r p t = None"
proof (induction t arbitrary: p)
  case Nil
  then show ?case
    by (simp add: assms)
next
  case (Cons c t)
  from Cons.prems have "list_all P t"
    by simp
  from Cons.IH[OF this] assms[OF Cons.prems] show ?case
    by simp
qed

lemma search_at_skip:
  assumes "\<And>i. i < length pre \<Longrightarrow>
             rmatch ic r (rev (take i pre) @ p, drop i pre @ t) Map.empty = []"
  shows "search_at ic r p (pre @ t) = search_at ic r (rev pre @ p) t"
  using assms
proof (induction pre arbitrary: p)
  case Nil
  then show ?case
    by simp
next
  case (Cons c pre)
  from Cons.prems[of 0] have 0: "rmatch ic r (p, c # pre @ t) Map.empty = []"
    by simp
  have "rmatch ic r (rev (take i pre) @ c # p, drop i pre @ t) Map.empty = []"
    if "i < length pre" for i
    using Cons.prems[of "Suc i"] that by simp
  from Cons.IH[of "c # p", OF this] 0 show ?case
    by simp
qed

text \<open>Literals under \<^verbatim>\<open>IGNORECASE\<close>.\<close>

lemma lit_match_lower:
  "lower x = lower s \<Longrightarrow> lit_match True s p (x @ t) = Some (rev x @ p, t)"
proof (induction s arbitrary: x p)
  case Nil
  then show ?case
    by (simp add: lower_def)
next
  case (Cons c s)
  then obtain d x' where x: "x = d # x'"
    by (cases x) (auto simp: lower_def)
  with Cons.prems have "lower_chr d = lower_chr c" and "lower x' = lower s"
    by (simp_all add: lower_def)
  with Cons.IH[of x' "d # p"] x show ?case
    by (simp add: chr_eq_def)
qed

lemma lit_match_None_lower:
  "lower (take (length s) t) \<noteq> lower s \<Longrightarrow> lit_match True s p t = None"
proof (induction s arbitrary: t p)
  case Nil
  then show ?case
    by (simp add: lower_def)
next
  case (Cons c s)
  show ?case
  proof (cases t)
    case Nil
    then show ?thesis
      by simp
  next
    case (Cons d t')
    show ?thesis
    proof (cases "lower_chr c = lower_chr d")
      case True
      with Cons.prems Cons have "lower (take (length s) t') \<noteq> lower s"
        by (simp add: lower_def)
      from Cons.IH[OF this] Cons True show ?thesis
        by (simp add: chr_eq_def)
    next
      case False
      with Cons show ?thesis
        by (simp add: chr_eq_def)
    qed
  qed
qed

text \<open>Word characters keep being word characters under the case maps, and are not white space.\<close>

lemma word_ord: "is_word c \<Longrightarrow> (48::nat) \<le> of_char c"
  by (auto simp: is_word_def is_upper_def is_lower_def is_digit_def less_eq_char_def)

lemma word_not_space: "is_word c \<Longrightarrow> \<not> is_space c"
proof
  assume w: "is_word c" and "is_space c"
  from \<open>is_space c\<close> have "of_char c < (48::nat)"
    unfolding is_space_def by (simp only: list.set insert_iff empty_iff) (elim disjE; simp)
  with word_ord[OF w] show False
    by simp
qed

lemma lower_chr_cases: "lower_chr c = c \<or> (c \<in> set upper_letters \<and> lower_chr c \<in> set lower_letters)"
proof (cases "map_of (zip upper_letters lower_letters) c")
  case None
  then show ?thesis
    by (simp add: lower_chr_def)
next
  case (Some l)
  then have "(c, l) \<in> set (zip upper_letters lower_letters)"
    by (rule map_of_SomeD)
  then have "c \<in> set upper_letters" and "l \<in> set lower_letters"
    by (auto dest: set_zip_leftD set_zip_rightD)
  with Some show ?thesis
    by (simp add: lower_chr_def)
qed

lemma upper_chr_cases: "upper_chr c = c \<or> (c \<in> set lower_letters \<and> upper_chr c \<in> set upper_letters)"
proof (cases "map_of (zip lower_letters upper_letters) c")
  case None
  then show ?thesis
    by (simp add: upper_chr_def)
next
  case (Some l)
  then have "(c, l) \<in> set (zip lower_letters upper_letters)"
    by (rule map_of_SomeD)
  then have "c \<in> set lower_letters" and "l \<in> set upper_letters"
    by (auto dest: set_zip_leftD set_zip_rightD)
  with Some show ?thesis
    by (simp add: upper_chr_def)
qed

lemma word_case_maps:
  assumes "is_word c"
  shows "is_word (lower_chr c)" and "is_word (upper_chr c)"
  using assms lower_chr_cases[of c] upper_chr_cases[of c] letter_is_word
  by auto

lemma lower_chr_word: "is_word (lower_chr c) \<Longrightarrow> is_word c"
  using lower_chr_cases[of c] letter_is_word(1)[of c] by auto

lemma word_not_in_Sp: "is_word c \<Longrightarrow> \<not> in_items ic [Sp] c"
  by (simp add: in_items_def word_case_maps word_not_space)

lemma space_in_Sp: "is_space c \<Longrightarrow> in_items ic [Sp] c"
  by (simp add: in_items_def)

lemma takeWhile_run:
  assumes "list_all P xs" and "ys = [] \<or> \<not> P (hd ys)"
  shows "takeWhile P (xs @ ys) = xs"
proof -
  from assms(2) have "takeWhile P ys = []"
    by (cases ys) auto
  with assms(1) show ?thesis
    by (simp add: list_all_iff)
qed

section \<open>The orchestrator passes the extractors' results on\<close>

lemma parse_of_parts:
  assumes "strip t = t'" and "find_travelers t' = Inr tr" and "find_budget t' = Inr b"
  shows "parse_trip_request y t =
           Inr \<lparr>destination = find_destination t',
                departure_city = find_departure_city t',
                month = w_month (find_month_or_window y t'),
                start_date = w_start_date (find_month_or_window y t'),
                end_date = w_end_date (find_month_or_window y t'),
                duration_days = find_duration_days t',
                travelers = tr,
                budget = b,
                interests = find_interests t',
                constraints = find_constraints t',
                spec_notes = t'\<rparr>"
  using assms by (simp add: parse_trip_request_def Let_def)

lemma parse_raises_in_budget:
  assumes "strip t = t'" and "find_travelers t' = Inr tr" and "find_budget t' = Inl e"
  shows "parse_trip_request y t = Inl e"
  using assms by (simp add: parse_trip_request_def Let_def)

lemma parse_raises_in_travelers:
  assumes "strip t = t'" and "find_travelers t' = Inl e"
  shows "parse_trip_request y t = Inl e"
  using assms by (simp add: parse_trip_request_def Let_def)

lemma parse_returns:
  "find_travelers (strip t) = Inr tr \<Longrightarrow> find_budget (strip t) = Inr b \<Longrightarrow>
     \<exists>r. parse_trip_request y t = Inr r"
  by (simp add: parse_trip_request_def Let_def)

lemma interests_of_parse:
  "parse_trip_request y t = Inr r \<Longrightarrow> interests r = find_interests (strip t)"
  by (cases "find_travelers (strip t)"; cases "find_budget (strip t)")
     (auto simp: parse_trip_request_def Let_def)

lemma notes_of_parse:
  "parse_trip_request y t = Inr r \<Longrightarrow> spec_notes r = strip t"
  by (cases "find_travelers (strip t)"; cases "find_budget (strip t)")
     (auto simp: parse_trip_request_def Let_def)

lemma window_fields_of_parse:
  assumes "parse_trip_request y t = Inr r"
  shows "start_date r = w_start_date (find_month_or_window y (strip t))"
    and "end_date r = w_end_date (find_month_or_window y (strip t))"
    and "month r = w_month (find_month_or_window y (strip t))"
  using assms
  by (cases "find_travelers (strip t)"; cases "find_budget (strip t)";
      auto simp: parse_trip_request_def Let_def)+

section \<open>Date windows\<close>

text \<open>
  Claim C1. "Oct 5th to 15th, 2025" should give start_date "2025-10-05", end_date
  "2025-10-15" and no month, the start year being the year stated after the end day.
  The named-month rule reads the trailing year as the end year only and takes the start
  year from the clock: in 2026 the window starts on 2026-10-05 and ends on 2025-10-15, in
  the returned record as well; the claimed dates come out only when the current year is
  2025.
\<close>

theorem named_month_range_start_year_from_clock:
  "find_month_or_window 2026 ''Oct 5th to 15th, 2025'' =
     \<lparr>w_start_date = Some ''2026-10-05'', w_end_date = Some ''2025-10-15'', w_month = None\<rparr> \<and>
   map_sum (\<lambda>e. e) (\<lambda>r. (start_date r, end_date r, month r))
       (parse_trip_request 2026 ''Oct 5th to 15th, 2025'') =
     Inr (Some ''2026-10-05'', Some ''2025-10-15'', None) \<and>
   find_month_or_window 2025 ''Oct 5th to 15th, 2025'' =
     \<lparr>w_start_date = Some ''2025-10-05'', w_end_date = Some ''2025-10-15'', w_month = None\<rparr>"
proof -
  have s: "strip ''Oct 5th to 15th, 2025'' = ''Oct 5th to 15th, 2025''"
    by code_simp
  have t: "find_travelers ''Oct 5th to 15th, 2025'' = Inr \<lparr>adults = None, children = 0\<rparr>"
    by code_simp
  have b: "find_budget ''Oct 5th to 15th, 2025'' = Inr \<lparr>amount = None, currency = None, tag = None\<rparr>"
    by code_simp
  have w26: "find_month_or_window 2026 ''Oct 5th to 15th, 2025'' =
     \<lparr>w_start_date = Some ''2026-10-05'', w_end_date = Some ''2025-10-15'', w_month = None\<rparr>"
    by code_simp
  have w25: "find_month_or_window 2025 ''Oct 5th to 15th, 2025'' =
     \<lparr>w_start_date = Some ''2025-10-05'', w_end_date = Some ''2025-10-15'', w_month = None\<rparr>"
    by code_simp
  from parse_of_parts[OF s t b, of 2026] w26 w25 show ?thesis
    by simp
qed

text \<open>
  Claim C2. A text in which no date range validates and which names a month anywhere
  should get that month's number, e.g. "trip in October" gives month 10. The last rule
  of the resolver looks at the first run of three to nine letters only: for "trip in
  October" that is "trip", no month, and the window comes back empty whatever the current
  year, in the returned record as well. The month is found when its name is that first
  word, as in "in October".
\<close>

theorem bare_month_only_as_first_word:
  "find_month_or_window y ''trip in October'' =
     \<lparr>w_start_date = None, w_end_date = None, w_month = None\<rparr> \<and>
   map_sum (\<lambda>e. e) (\<lambda>r. (start_date r, end_date r, month r))
       (parse_trip_request y ''trip in October'') = Inr (None, None, None) \<and>
   find_month_or_window y ''in October'' =
     \<lparr>w_start_date = None, w_end_date = None, w_month = Some 10\<rparr>"
proof -
  have s: "strip ''trip in October'' = ''trip in October''"
    by code_simp
  have t: "find_travelers ''trip in October'' = Inr \<lparr>adults = None, children = 0\<rparr>"
    by code_simp
  have b: "find_budget ''trip in October'' = Inr \<lparr>amount = None, currency = None, tag = None\<rparr>"
    by code_simp
  have w: "find_month_or_window y ''trip in October'' =
     \<lparr>w_start_date = None, w_end_date = None, w_month = None\<rparr>"
    by code_simp
  have w': "find_month_or_window y ''in October'' =
     \<lparr>w_start_date = None, w_end_date = None, w_month = Some 10\<rparr>"
    by code_simp
  from parse_of_parts[OF s t b, of y] w w' show ?thesis
    by simp
qed

text \<open>
  Claim C8. "5-15 October 2025" (day range before the month) and "between Oct 5 and 15,
  2025" each give start_date "2025-10-05" and end_date "2025-10-15", whatever the current
  year: from the resolver, and in the record the orchestrator returns.
\<close>

theorem day_range_and_between_same_window:
  "find_month_or_window y ''5-15 October 2025'' =
     \<lparr>w_start_date = Some ''2025-10-05'', w_end_date = Some ''2025-10-15'', w_month = None\<rparr> \<and>
   find_month_or_window y ''between Oct 5 and 15, 2025'' =
     \<lparr>w_start_date = Some ''2025-10-05'', w_end_date = Some ''2025-10-15'', w_month = None\<rparr> \<and>
   map_sum (\<lambda>e. e) (\<lambda>r. (start_date r, end_date r, month r))
       (parse_trip_request y ''5-15 October 2025'') =
     Inr (Some ''2025-10-05'', Some ''2025-10-15'', None) \<and>
   map_sum (\<lambda>e. e) (\<lambda>r. (start_date r, end_date r, month r))
       (parse_trip_request y ''between Oct 5 and 15, 2025'') =
     Inr (Some ''2025-10-05'', Some ''2025-10-15'', None)"
proof -
  have s1: "strip ''5-15 October 2025'' = ''5-15 October 2025''"
    by code_simp
  have s2: "strip ''between Oct 5 and 15, 2025'' = ''between Oct 5 and 15, 2025''"
    by code_simp
  have t1: "find_travelers ''5-15 October 2025'' = Inr \<lparr>adults = None, children = 0\<rparr>"
    by code_simp
  have t2: "find_travelers ''between Oct 5 and 15, 2025'' = Inr \<lparr>adults = None, children = 0\<rparr>"
    by code_simp
  have b1: "find_budget ''5-15 October 2025'' = Inr \<lparr>amount = None, currency = None, tag = None\<rparr>"
    by code_simp
  have b2: "find_budget ''between Oct 5 and 15, 2025'' =
      Inr \<lparr>amount = None, currency = None, tag = None\<rparr>"
    by code_simp
  have w1: "find_month_or_window y ''5-15 October 2025'' =
     \<lparr>w_start_date = Some ''2025-10-05'', w_end_date = Some ''2025-10-15'', w_month = None\<rparr>"
    by code_simp
  have w2: "find_month_or_window y ''between Oct 5 and 15, 2025'' =
     \<lparr>w_start_date = Some ''2025-10-05'', w_end_date = Some ''2025-10-15'', w_month = None\<rparr>"
    by code_simp
  from parse_of_parts[OF s1 t1 b1, of y] parse_of_parts[OF s2 t2 b2, of y] w1 w2 show ?thesis
    by simp
qed

lemma iso_pat_groups: "1 \<in> sure_groups iso_pat" "2 \<in> sure_groups iso_pat"
  by (simp_all add: iso_pat_def seqs_def)

lemma window_iso_shape:
  assumes "window_iso T = Some w"
  shows "w_start_date w \<noteq> None \<and> w_end_date w \<noteq> None \<and> w_month w = None"
proof -
  from assms obtain m where m: "re_search False iso_pat T = Some m"
    and w: "w = \<lparr>w_start_date = m_groups m 1, w_end_date = m_groups m 2, w_month = None\<rparr>"
    by (auto simp: window_iso_def split: option.splits)
  from m have "search_at False iso_pat [] T = Some m"
    by (simp add: re_search_def)
  from search_at_sure_groups[OF this iso_pat_groups(1)]
       search_at_sure_groups[OF this iso_pat_groups(2)] w
  show ?thesis
    by simp
qed

lemma date_window_shape:
  "date_window a b = Some w \<Longrightarrow>
     w_start_date w \<noteq> None \<and> w_end_date w \<noteq> None \<and> w_month w = None"
  by (auto simp: date_window_def split: option.splits)

lemma window_pat1_shape:
  "window_pat1 y T = Some w \<Longrightarrow>
     w_start_date w \<noteq> None \<and> w_end_date w \<noteq> None \<and> w_month w = None"
  unfolding window_pat1_def Let_def
  by (auto split: option.splits dest: date_window_shape)

lemma window_pat2_shape:
  "window_pat2 y T = Some w \<Longrightarrow>
     w_start_date w \<noteq> None \<and> w_end_date w \<noteq> None \<and> w_month w = None"
  unfolding window_pat2_def Let_def
  by (auto split: option.splits dest: date_window_shape)

lemma window_pat3_shape:
  "window_pat3 y T = Some w \<Longrightarrow>
     w_start_date w \<noteq> None \<and> w_end_date w \<noteq> None \<and> w_month w = None"
  unfolding window_pat3_def Let_def
  by (auto split: option.splits dest: date_window_shape)

lemma window_plain_month_shape:
  "window_plain_month T = Some w \<Longrightarrow> w_start_date w = None \<and> w_end_date w = None"
  unfolding window_plain_month_def
  by (auto split: option.splits)

lemma first_some_mem: "first_some xs = Some w \<Longrightarrow> Some w \<in> set xs"
proof -
  assume a: "first_some xs = Some w"
  then obtain rest where "filter (\<lambda>x. x \<noteq> None) xs = Some w # rest"
    by (auto simp: first_some_def split: list.splits)
  then have "Some w \<in> set (filter (\<lambda>x. x \<noteq> None) xs)"
    by simp
  then show ?thesis
    by simp
qed

lemma find_month_or_window_shape:
  "(w_start_date (find_month_or_window y T) = None \<longleftrightarrow>
      w_end_date (find_month_or_window y T) = None) \<and>
   (w_start_date (find_month_or_window y T) \<noteq> None \<longrightarrow>
      w_month (find_month_or_window y T) = None)"
proof (cases "first_some [window_iso T, window_pat1 y T, window_pat2 y T,
                          window_pat3 y T, window_plain_month T]")
  case None
  then show ?thesis
    by (simp add: find_month_or_window_def)
next
  case (Some w)
  from first_some_mem[OF Some] have
    "window_iso T = Some w \<or> window_pat1 y T = Some w \<or> window_pat2 y T = Some w \<or>
     window_pat3 y T = Some w \<or> window_plain_month T = Some w"
    by auto
  then have "(w_start_date w = None \<longleftrightarrow> w_end_date w = None) \<and>
             (w_start_date w \<noteq> None \<longrightarrow> w_month w = None)"
  proof (elim disjE)
    assume "window_iso T = Some w"
    from window_iso_shape[OF this] show ?thesis by auto
  next
    assume "window_pat1 y T = Some w"
    from window_pat1_shape[OF this] show ?thesis by auto
  next
    assume "window_pat2 y T = Some w"
    from window_pat2_shape[OF this] show ?thesis by auto
  next
    assume "window_pat3 y T = Some w"
    from window_pat3_shape[OF this] show ?thesis by auto
  next
    assume "window_plain_month T = Some w"
    from window_plain_month_shape[OF this] show ?thesis by auto
  qed
  moreover from Some have eq: "find_month_or_window y T = w"
    by (simp add: find_month_or_window_def)
  ultimately show ?thesis
    unfolding eq by blast
qed

text \<open>
  Claim C9. In every returned record start_date and end_date are both present or both
  absent, and month is absent whenever a date range was parsed: each rule of the resolver
  that returns sets either both dates or the month alone.
\<close>

theorem dates_together_and_never_with_month:
  assumes "parse_trip_request y t = Inr r"
  shows "(start_date r = None \<longleftrightarrow> end_date r = None) \<and>
         (start_date r \<noteq> None \<longrightarrow> month r = None)"
  unfolding window_fields_of_parse[OF assms]
  by (rule find_month_or_window_shape)


theorem dates_together_and_never_with_month_witness:
  "\<exists>r. parse_trip_request 2026 ''5-15 October 2025'' = Inr r \<and>
       start_date r = Some ''2025-10-05'' \<and> end_date r \<noteq> None \<and> month r = None"
proof -
  have s: "strip ''5-15 October 2025'' = ''5-15 October 2025''"
    by code_simp
  have t: "find_travelers ''5-15 October 2025'' = Inr \<lparr>adults = None, children = 0\<rparr>"
    by code_simp
  have b: "find_budget ''5-15 October 2025'' = Inr \<lparr>amount = None, currency = None, tag = None\<rparr>"
    by code_simp
  have w: "w_start_date (find_month_or_window 2026 ''5-15 October 2025'') = Some ''2025-10-05''"
    by code_simp
  from parse_of_parts[OF s t b, of 2026] obtain r where
    r: "parse_trip_request 2026 ''5-15 October 2025'' = Inr r"
    by blast
  from window_fields_of_parse(1)[OF r] have st: "start_date r = Some ''2025-10-05''"
    by (simp only: s w)
  with dates_together_and_never_with_month[OF r] have "end_date r \<noteq> None" and "month r = None"
    by simp_all
  with r st show ?thesis
    by (intro exI[of _ r] conjI) assumption+
qed

section \<open>Durations\<close>

text \<open>
  Claim C3. "four-day" and "4 days" should both give duration_days = 4. The digit rule
  allows a hyphen between the number and the unit, the word rule does not: "4 days" and
  "4-day" give 4, "four days" gives 4, and "four-day" gives no duration, in the returned
  record as well.
\<close>

theorem word_duration_without_hyphen_only:
  "find_duration_days ''four-day'' = None \<and>
   map_sum (\<lambda>e. e) duration_days (parse_trip_request y ''four-day'') = Inr None \<and>
   find_duration_days ''4 days'' = Some 4 \<and>
   find_duration_days ''4-day'' = Some 4 \<and>
   find_duration_days ''four days'' = Some 4"
proof -
  have s: "strip ''four-day'' = ''four-day''"
    by code_simp
  have t: "find_travelers ''four-day'' = Inr \<lparr>adults = None, children = 0\<rparr>"
    by code_simp
  have b: "find_budget ''four-day'' = Inr \<lparr>amount = None, currency = None, tag = None\<rparr>"
    by code_simp
  have d: "find_duration_days ''four-day'' = None"
    by code_simp
  have d': "find_duration_days ''4 days'' = Some 4 \<and> find_duration_days ''4-day'' = Some 4 \<and>
      find_duration_days ''four days'' = Some 4"
    by code_simp
  from parse_of_parts[OF s t b, of y] d d' show ?thesis
    by simp
qed

section \<open>Travelers\<close>

lemma lower_family: "lower ''family'' = ''family''" and lower_of: "lower ''of'' = ''of''"
  by (simp_all add: lower_def lower_chr_def upper_letters_def lower_letters_def)

lemma lower_hd_word:
  assumes "lower x = c # s" and "is_word c"
  shows "x \<noteq> []" and "is_word (hd x)"
proof -
  from assms(1) obtain d x' where x: "x = d # x'" and "lower_chr d = c"
    by (cases x) (auto simp: lower_def)
  with assms(2) have "is_word (lower_chr d)"
    by simp
  then have "is_word d"
    by (rule lower_chr_word)
  with x show "x \<noteq> []" and "is_word (hd x)"
    by simp_all
qed

lemma ws1_run:
  assumes "w \<noteq> []" and "list_all is_space w" and "t \<noteq> []" and "is_word (hd t)"
  shows "first_try True ws1 (p, w @ t) g = Some ((rev w @ p, t), g)"
proof -
  from assms(2) have "list_all (in_cset True (Pos [Sp])) w"
    by (simp add: list_all_iff space_in_Sp)
  moreover from assms(3,4) have "t = [] \<or> \<not> in_cset True (Pos [Sp]) (hd t)"
    by (simp add: word_not_in_Sp)
  ultimately have "takeWhile (in_cset True (Pos [Sp])) (w @ t) = w"
    by (rule takeWhile_run)
  then have "length (takeWhile (in_cset True (Pos [Sp])) (w @ t)) = length w"
    by (simp only:)
  moreover from assms(1) have "1 \<le> length w"
    by (cases w) simp_all
  ultimately have "first_try True (Rep True 1 None (Pos [Sp])) (p, w @ t) g =
      Some ((rev (take (length w) (w @ t)) @ p, drop (length w) (w @ t)), g)"
    by (rule first_try_Rep_greedy)
  then show ?thesis
    by (simp add: ws1_def)
qed

lemma family_at_fails:
  assumes "lower (take 6 t) \<noteq> ''family''"
  shows "rmatch True family_pat (p, t) g = []"
proof -
  have "length ''family'' = 6"
    by simp
  with assms have "lower (take (length ''family'') t) \<noteq> lower ''family''"
    by (simp only: lower_family not_False_eq_True)
  then have "lit_match True ''family'' p t = None"
    by (rule lit_match_None_lower)
  then have "rmatch True (Lit ''family'') (p, t) g = []"
    by simp
  then show ?thesis
    unfolding family_pat_def seqs_def
    by (simp only: foldr.simps o_apply rmatch_WordB_Seq_Nil rmatch_Seq_Nil)
qed

text \<open>
  The phrase "family of N" as the claim reads it, stated on the text alone: \<open>before\<close> is
  the text up to a position and \<open>rest\<close> the text from it. The phrase stands at the
  position when \<open>rest\<close> starts, at a word boundary, with the letters "family" in any case,
  white space, "of", white space and a run of digits that ends at a word boundary.
\<close>

definition family_phrase :: "string \<Rightarrow> string \<Rightarrow> bool" where
  "family_phrase before rest =
     (let r1 = drop 6 rest;
          r2 = dropWhile is_space r1;
          r3 = drop 2 r2;
          r4 = dropWhile is_space r3;
          r5 = dropWhile is_digit r4
      in (before = [] \<or> \<not> is_word (last before)) \<and>
         lower (take 6 rest) = ''family'' \<and> takeWhile is_space r1 \<noteq> [] \<and>
         lower (take 2 r2) = ''of'' \<and> takeWhile is_space r3 \<noteq> [] \<and>
         takeWhile is_digit r4 \<noteq> [] \<and> (r5 = [] \<or> \<not> is_word (hd r5)))"

lemma in_Sp_iff: "in_items ic [Sp] c = is_space c"
proof
  assume a: "in_items ic [Sp] c"
  show "is_space c"
  proof (rule ccontr)
    assume n: "\<not> is_space c"
    with a have "is_space (lower_chr c) \<or> is_space (upper_chr c)"
      by (auto simp: in_items_def)
    then show False
    proof
      assume s: "is_space (lower_chr c)"
      with n lower_chr_cases[of c] have "lower_chr c \<in> set lower_letters"
        by auto
      then have "is_word (lower_chr c)"
        by (rule letter_is_word)
      with s word_not_space show False
        by blast
    next
      assume s: "is_space (upper_chr c)"
      with n upper_chr_cases[of c] have "upper_chr c \<in> set upper_letters"
        by auto
      then have "is_word (upper_chr c)"
        by (rule letter_is_word)
      with s word_not_space show False
        by blast
    qed
  qed
next
  assume "is_space c"
  then show "in_items ic [Sp] c"
    by (rule space_in_Sp)
qed

lemma in_Dg_iff: "in_items ic [Dg] c = is_digit c"
proof
  assume a: "in_items ic [Dg] c"
  show "is_digit c"
  proof (rule ccontr)
    assume n: "\<not> is_digit c"
    with a have "is_digit (lower_chr c) \<or> is_digit (upper_chr c)"
      by (auto simp: in_items_def)
    then show False
    proof
      assume s: "is_digit (lower_chr c)"
      with n lower_chr_cases[of c] have "lower_chr c \<in> set lower_letters"
        by auto
      with digit_not_letter(2)[OF s] show False
        by simp
    next
      assume s: "is_digit (upper_chr c)"
      with n upper_chr_cases[of c] have "upper_chr c \<in> set upper_letters"
        by auto
      with digit_not_letter(1)[OF s] show False
        by simp
    qed
  qed
next
  assume "is_digit c"
  then show "in_items ic [Dg] c"
    by (rule digit_in_Dg)
qed

lemma in_cset_Sp: "in_cset ic (Pos [Sp]) = is_space"
  by (rule ext) (simp add: in_Sp_iff)

lemma in_cset_Dg: "in_cset ic (Pos [Dg]) = is_digit"
  by (rule ext) (simp add: in_Dg_iff)

lemma dropWhile_run:
  assumes "list_all P xs" and "ys = [] \<or> \<not> P (hd ys)"
  shows "dropWhile P (xs @ ys) = ys"
proof -
  from assms(2) have "dropWhile P ys = ys"
    by (cases ys) auto
  with assms(1) show ?thesis
    by (simp add: list_all_iff)
qed

lemma lit_match_SomeD:
  assumes "lit_match True s p t = Some cur"
  obtains x rest where "t = x @ rest" and "lower x = lower s" and "cur = (rev x @ p, rest)"
proof -
  let ?x = "take (length s) t"
  from assms lit_match_None_lower[of s t p] have l: "lower ?x = lower s"
    by auto
  from lit_match_lower[OF l, of p "drop (length s) t"] assms
  have "cur = (rev ?x @ p, drop (length s) t)"
    by simp
  with l that[of ?x "drop (length s) t"] show thesis
    by simp
qed

lemma rep_member:
  assumes "(cur', g') \<in> set (rmatch ic (Rep True 1 None cs) (p, t) g)"
  obtains x rest where "t = x @ rest" and "x \<noteq> []" and "list_all (in_cset ic cs) x"
    and "cur' = (rev x @ p, rest)" and "g' = g"
proof -
  let ?P = "in_cset ic cs"
  from assms obtain n where ns: "n \<in> set (rep_counts True 1 None (length (takeWhile ?P t)))"
    and c: "cur' = advance n (p, t)" and g: "g' = g"
    by auto
  from ns have n: "1 \<le> n" "n \<le> length (takeWhile ?P t)"
    by (auto simp: rep_counts_def Let_def)
  have "take n t = take n (takeWhile ?P t @ dropWhile ?P t)"
    by simp
  also from n(2) have "\<dots> = take n (takeWhile ?P t)"
    by (simp only: take_append) simp
  finally have "set (take n t) \<subseteq> set (takeWhile ?P t)"
    by (simp add: set_take_subset)
  then have a: "list_all ?P (take n t)"
    by (auto simp: list_all_iff dest: set_takeWhileD)
  from n have "n \<le> length t"
    using length_takeWhile_le[of ?P t] by simp
  with n(1) have ne: "take n t \<noteq> []"
    by (cases t) auto
  from c have "cur' = (rev (take n t) @ p, drop n t)"
    by (simp add: advance_def)
  with that[of "take n t" "drop n t"] ne a g show thesis
    by simp
qed

lemma lower_length: "lower x = s \<Longrightarrow> length x = length s"
  by (auto simp: lower_def)

text \<open>
  A match of the family pattern at a cursor takes the text ahead apart into the words of
  the phrase.
\<close>

lemma family_pat_member:
  assumes "res \<in> set (rmatch True family_pat (p, t) g)"
  obtains fam w1 ofw w2 ds post where
    "t = fam @ w1 @ ofw @ w2 @ ds @ post"
    and "lower fam = ''family''" and "lower ofw = ''of''"
    and "w1 \<noteq> []" and "list_all is_space w1"
    and "w2 \<noteq> []" and "list_all is_space w2"
    and "ds \<noteq> []" and "list_all is_digit ds"
    and "p = [] \<or> \<not> is_word (hd p)"
    and "post = [] \<or> \<not> is_word (hd post)"
proof -
  let ?digs = "Rep True 1 None (Pos [Dg])"
  let ?sp = "Rep True 1 None (Pos [Sp])"
  have pat: "family_pat = Seq WordB (Seq (Lit ''family'') (Seq ?sp (Seq (Lit ''of'') (Seq ?sp
               (Seq (Grp 1 ?digs) (Seq WordB (Lit [])))))))"
    by (simp add: family_pat_def seqs_def ws1_def)
  from assms obtain c1 g1 where 1: "(c1, g1) \<in> set (rmatch True WordB (p, t) g)"
    and r1: "res \<in> set (rmatch True (Seq (Lit ''family'') (Seq ?sp (Seq (Lit ''of'') (Seq ?sp
               (Seq (Grp 1 ?digs) (Seq WordB (Lit []))))))) c1 g1)"
    unfolding pat by (rule rmatch_seq_elim)
  from 1 have b0: "at_boundary (p, t)" and c1: "c1 = (p, t)"
    by (auto split: if_splits)
  from r1 obtain c2 g2 where 2: "(c2, g2) \<in> set (rmatch True (Lit ''family'') c1 g1)"
    and r2: "res \<in> set (rmatch True (Seq ?sp (Seq (Lit ''of'') (Seq ?sp
               (Seq (Grp 1 ?digs) (Seq WordB (Lit [])))))) c2 g2)"
    by (rule rmatch_seq_elim)
  from 2 c1 have "lit_match True ''family'' p t = Some c2"
    by (auto split: option.splits)
  then obtain fam t1 where t: "t = fam @ t1" and fam: "lower fam = ''family''"
    and c2: "c2 = (rev fam @ p, t1)"
    by (rule lit_match_SomeD) (simp add: lower_family)
  from r2 obtain c3 g3 where 3: "(c3, g3) \<in> set (rmatch True ?sp c2 g2)"
    and r3: "res \<in> set (rmatch True (Seq (Lit ''of'') (Seq ?sp
               (Seq (Grp 1 ?digs) (Seq WordB (Lit []))))) c3 g3)"
    by (rule rmatch_seq_elim)
  from 3[unfolded c2] obtain w1 t2 where t1: "t1 = w1 @ t2"
    and w1: "w1 \<noteq> []" "list_all (in_cset True (Pos [Sp])) w1"
    and c3: "c3 = (rev w1 @ rev fam @ p, t2)"
    by (rule rep_member)
  note w1 = w1(1) w1(2)[unfolded in_cset_Sp]
  from r3 obtain c4 g4 where 4: "(c4, g4) \<in> set (rmatch True (Lit ''of'') c3 g3)"
    and r4: "res \<in> set (rmatch True (Seq ?sp (Seq (Grp 1 ?digs) (Seq WordB (Lit [])))) c4 g4)"
    by (rule rmatch_seq_elim)
  from 4 c3 have "lit_match True ''of'' (rev w1 @ rev fam @ p) t2 = Some c4"
    by (auto split: option.splits)
  then obtain ofw t3 where t2: "t2 = ofw @ t3" and ofw: "lower ofw = ''of''"
    and c4: "c4 = (rev ofw @ rev w1 @ rev fam @ p, t3)"
    by (rule lit_match_SomeD) (simp add: lower_of)
  from r4 obtain c5 g5 where 5: "(c5, g5) \<in> set (rmatch True ?sp c4 g4)"
    and r5: "res \<in> set (rmatch True (Seq (Grp 1 ?digs) (Seq WordB (Lit []))) c5 g5)"
    by (rule rmatch_seq_elim)
  from 5[unfolded c4] obtain w2 t4 where t3: "t3 = w2 @ t4"
    and w2: "w2 \<noteq> []" "list_all (in_cset True (Pos [Sp])) w2"
    and c5: "c5 = (rev w2 @ rev ofw @ rev w1 @ rev fam @ p, t4)"
    by (rule rep_member)
  note w2 = w2(1) w2(2)[unfolded in_cset_Sp]
  from r5 obtain c6 g6 where 6: "(c6, g6) \<in> set (rmatch True (Grp 1 ?digs) c5 g5)"
    and r6: "res \<in> set (rmatch True (Seq WordB (Lit [])) c6 g6)"
    by (rule rmatch_seq_elim)
  from 6 obtain g6' where "(c6, g6') \<in> set (rmatch True ?digs c5 g5)"
    by auto
  from this[unfolded c5] obtain ds post where t4: "t4 = ds @ post"
    and ds: "ds \<noteq> []" "list_all (in_cset True (Pos [Dg])) ds"
    and c6: "c6 = (rev ds @ rev w2 @ rev ofw @ rev w1 @ rev fam @ p, post)"
    by (rule rep_member)
  note ds = ds(1) ds(2)[unfolded in_cset_Dg]
  from r6 obtain c7 g7 where "(c7, g7) \<in> set (rmatch True WordB c6 g6)"
    by (rule rmatch_seq_elim)
  then have b1: "at_boundary c6"
    by (auto split: if_splits)
  have fw: "fam \<noteq> []" "is_word (hd fam)"
    using lower_hd_word[OF fam] by (simp_all add: is_word_def is_lower_def)
  with b0 t have pb: "p = [] \<or> \<not> is_word (hd p)"
    by (cases p; cases fam) (auto simp: at_boundary_def)
  from ds have "is_word (last ds)"
    by (simp add: list_all_iff digit_is_word)
  with b1 c6 ds(1) have qb: "post = [] \<or> \<not> is_word (hd post)"
    by (cases ds rule: rev_cases; cases post) (auto simp: at_boundary_def)
  from t t1 t2 t3 t4 have "t = fam @ w1 @ ofw @ w2 @ ds @ post"
    by simp
  from that[OF this fam ofw w1 w2 ds pb qb] show thesis .
qed

text \<open>The words of the phrase, one after the other, are the phrase.\<close>

lemma family_phrase_parts:
  assumes fam: "lower fam = ''family''" and ofw: "lower ofw = ''of''"
    and w1: "w1 \<noteq> []" "list_all is_space w1"
    and w2: "w2 \<noteq> []" "list_all is_space w2"
    and ds: "ds \<noteq> []" "list_all is_digit ds"
    and pre: "before = [] \<or> \<not> is_word (last before)"
    and post: "post = [] \<or> \<not> is_word (hd post)"
  shows "family_phrase before (fam @ w1 @ ofw @ w2 @ ds @ post)"
proof -
  from lower_length[OF fam] have lf: "length fam = 6"
    by simp
  from lower_length[OF ofw] have lo: "length ofw = 2"
    by simp
  have ow: "ofw \<noteq> []" "is_word (hd ofw)"
    using lower_hd_word[OF ofw] by (simp_all add: is_word_def is_lower_def)
  then have os: "\<not> is_space (hd ofw)"
    using word_not_space by blast
  from ds have dn: "\<not> is_space (hd ds)"
    by (cases ds) (auto simp: digit_not_space)
  from post have pd: "post = [] \<or> \<not> is_digit (hd post)"
    using digit_is_word by blast
  have a1: "take 6 (fam @ w1 @ ofw @ w2 @ ds @ post) = fam"
    and d1: "drop 6 (fam @ w1 @ ofw @ w2 @ ds @ post) = w1 @ ofw @ w2 @ ds @ post"
    using lf by simp_all
  from ow(1) os have o1: "ofw @ w2 @ ds @ post = [] \<or> \<not> is_space (hd (ofw @ w2 @ ds @ post))"
    by simp
  from ds(1) dn have o2: "ds @ post = [] \<or> \<not> is_space (hd (ds @ post))"
    by simp
  note a2 = takeWhile_run[OF w1(2) o1] and d2 = dropWhile_run[OF w1(2) o1]
  have a3: "take 2 (ofw @ w2 @ ds @ post) = ofw"
    and d3: "drop 2 (ofw @ w2 @ ds @ post) = w2 @ ds @ post"
    using lo by simp_all
  note a4 = takeWhile_run[OF w2(2) o2] and d4 = dropWhile_run[OF w2(2) o2]
  note a5 = takeWhile_run[OF ds(2) pd] and d5 = dropWhile_run[OF ds(2) pd]
  show ?thesis
    unfolding family_phrase_def Let_def d1 d2 d3 d4 d5 a1 a2 a3 a4 a5
    using fam ofw w1(1) w2(1) ds(1) pre post by (intro conjI)
qed

lemma family_pat_needs_phrase:
  assumes "\<not> family_phrase (rev p) t"
  shows "rmatch True family_pat (p, t) g = []"
proof (rule ccontr)
  assume "rmatch True family_pat (p, t) g \<noteq> []"
  then obtain res where "res \<in> set (rmatch True family_pat (p, t) g)"
    by (cases "rmatch True family_pat (p, t) g") auto
  then obtain fam w1 ofw w2 ds post where t: "t = fam @ w1 @ ofw @ w2 @ ds @ post"
    and parts: "lower fam = ''family''" "lower ofw = ''of''"
      "w1 \<noteq> []" "list_all is_space w1" "w2 \<noteq> []" "list_all is_space w2"
      "ds \<noteq> []" "list_all is_digit ds"
    and pb: "p = [] \<or> \<not> is_word (hd p)"
    and qb: "post = [] \<or> \<not> is_word (hd post)"
    by (rule family_pat_member)
  from pb have "rev p = [] \<or> \<not> is_word (last (rev p))"
    by (cases p) auto
  from family_phrase_parts[OF parts this qb] assms t show False
    by simp
qed

lemma family_phrase_search:
  assumes fam: "lower fam = ''family''" and ofw: "lower ofw = ''of''"
    and w1: "w1 \<noteq> []" "list_all is_space w1"
    and w2: "w2 \<noteq> []" "list_all is_space w2"
    and ds: "ds \<noteq> []" "list_all is_digit ds"
    and pre: "pre = [] \<or> \<not> is_word (last pre)"
    and post: "post = [] \<or> \<not> is_word (hd post)"
    and first: "list_all (\<lambda>i. \<not> family_phrase (take i (pre @ fam @ w1 @ ofw @ w2 @ ds @ post))
                                              (drop i (pre @ fam @ w1 @ ofw @ w2 @ ds @ post)))
                  [0..<length pre]"
  shows "\<exists>m. re_search True family_pat (pre @ fam @ w1 @ ofw @ w2 @ ds @ post) = Some m \<and>
             m_groups m 1 = Some ds"
proof -
  let ?r5 = "ds @ post"
  let ?r4 = "w2 @ ?r5"
  let ?r3 = "ofw @ ?r4"
  let ?r2 = "w1 @ ?r3"
  let ?r1 = "fam @ ?r2"
  let ?p1 = "rev pre"
  let ?p2 = "rev fam @ ?p1"
  let ?p3 = "rev w1 @ ?p2"
  let ?p4 = "rev ofw @ ?p3"
  let ?p5 = "rev w2 @ ?p4"
  let ?p6 = "rev ds @ ?p5"
  let ?digs = "Rep True 1 None (Pos [Dg])"
  let ?g = "[1 \<mapsto> ds]"
  have skip: "rmatch True family_pat (rev (take i pre) @ [], drop i pre @ ?r1) Map.empty = []"
    if "i < length pre" for i
  proof -
    from first that have "\<not> family_phrase (take i (pre @ ?r1)) (drop i (pre @ ?r1))"
      by (simp add: list_all_iff)
    with that have "\<not> family_phrase (rev (rev (take i pre) @ [])) (drop i pre @ ?r1)"
      by simp
    then show ?thesis
      by (rule family_pat_needs_phrase)
  qed
  have s: "search_at True family_pat [] (pre @ ?r1) = search_at True family_pat (rev pre @ []) ?r1"
    by (rule search_at_skip) (rule skip)
  have fw: "fam \<noteq> []" "is_word (hd fam)"
    using lower_hd_word[OF fam] by (simp_all add: is_word_def is_lower_def)
  have ow: "ofw \<noteq> []" "is_word (hd ofw)"
    using lower_hd_word[OF ofw] by (simp_all add: is_word_def is_lower_def)
  from pre fw have "at_boundary (?p1, ?r1)"
    by (cases pre rule: rev_cases; cases fam) (auto simp: at_boundary_def)
  then have 1: "first_try True WordB (?p1, ?r1) Map.empty = Some ((?p1, ?r1), Map.empty)"
    by (rule first_try_WordB)
  from fam have "lit_match True ''family'' ?p1 (fam @ ?r2) = Some (?p2, ?r2)"
    by (intro lit_match_lower) (simp add: lower_family)
  then have 2: "first_try True (Lit ''family'') (?p1, ?r1) Map.empty = Some ((?p2, ?r2), Map.empty)"
    by (rule first_try_Lit)
  from ow have "?r3 \<noteq> []" and "is_word (hd ?r3)"
    by simp_all
  from ws1_run[OF w1 this]
  have 3: "first_try True ws1 (?p2, ?r2) Map.empty = Some ((?p3, ?r3), Map.empty)" .
  from ofw have "lit_match True ''of'' ?p3 (ofw @ ?r4) = Some (?p4, ?r4)"
    by (intro lit_match_lower) (simp add: lower_of)
  then have 4: "first_try True (Lit ''of'') (?p3, ?r3) Map.empty = Some ((?p4, ?r4), Map.empty)"
    by (rule first_try_Lit)
  from ds have "?r5 \<noteq> []" and "is_word (hd ?r5)"
    by (cases ds; simp add: digit_is_word)+
  from ws1_run[OF w2 this]
  have 5: "first_try True ws1 (?p4, ?r4) Map.empty = Some ((?p5, ?r5), Map.empty)" .
  have "length (takeWhile (in_cset True (Pos [Dg])) ?r5) = length ds"
    by (simp only: takeWhile_digits_then[OF ds(2) post])
  moreover from ds(1) have "1 \<le> length ds"
    by (cases ds) simp_all
  ultimately have "first_try True ?digs (?p5, ?r5) Map.empty =
      Some ((rev (take (length ds) ?r5) @ ?p5, drop (length ds) ?r5), Map.empty)"
    by (rule first_try_Rep_greedy)
  then have 6: "first_try True ?digs (?p5, ?r5) Map.empty = Some ((?p6, post), Map.empty)"
    by simp
  from first_try_Grp[OF 6, of 1]
  have 7: "first_try True (Grp 1 ?digs) (?p5, ?r5) Map.empty = Some ((?p6, post), ?g)"
    by simp
  from ds have "is_word (last ds)"
    by (simp add: list_all_iff digit_is_word)
  with ds(1) post have "at_boundary (?p6, post)"
    by (cases ds rule: rev_cases; cases post) (auto simp: at_boundary_def)
  then have 8: "first_try True WordB (?p6, post) ?g = Some ((?p6, post), ?g)"
    by (rule first_try_WordB)
  have 9: "first_try True (Lit []) (?p6, post) ?g = Some ((?p6, post), ?g)"
    by (rule first_try_Lit) simp
  from first_try_Seq[OF 1 first_try_Seq[OF 2 first_try_Seq[OF 3 first_try_Seq[OF 4
        first_try_Seq[OF 5 first_try_Seq[OF 7 first_try_Seq[OF 8 9]]]]]]]
  have "first_try True family_pat (?p1, ?r1) Map.empty = Some ((?p6, post), ?g)"
    by (simp add: family_pat_def seqs_def)
  from search_at_first_try[OF this] s show ?thesis
    by (simp add: re_search_def mk_match_def)
qed



lemma py_int_long: "4300 < length s \<Longrightarrow> py_int s = Inl ValueError"
  by (simp add: py_int_def int_max_str_digits_def)




lemma long_family_number_raises:
  assumes "list_all is_digit ds" and "4300 < length ds"
  shows "find_travelers (''family of '' @ ds) = Inl ValueError"
proof -
  from assms(2) have ne: "ds \<noteq> []"
    by auto
  have "list_all (\<lambda>i. \<not> family_phrase (take i ([] @ ''family'' @ '' '' @ ''of'' @ '' '' @ ds @ []))
                                    (drop i ([] @ ''family'' @ '' '' @ ''of'' @ '' '' @ ds @ [])))
          [0..<length ([]::string)]"
    by simp
  from family_phrase_search[of "''family''" "''of''" "'' ''" "'' ''" ds "[]" "[]", OF _ _ _ _ _ _ ne assms(1) _ _ this]
  obtain m where "re_search True family_pat ([] @ ''family'' @ '' '' @ ''of'' @ '' '' @ ds @ []) = Some m"
    and g: "m_groups m 1 = Some ds"
    by (auto simp: lower_family lower_of is_space_def)
  then have m: "re_search True family_pat (''family of '' @ ds) = Some m"
    by simp
  from g show ?thesis
    unfolding find_travelers_def m by (simp add: py_int_long[OF assms(2)])
qed

lemma no_family_phrase_no_match:
  assumes "list_all (\<lambda>i. \<not> family_phrase (take i t) (drop i t)) [0..<Suc (length t)]"
  shows "re_search True family_pat t = None"
proof -
  have skip: "rmatch True family_pat (rev (take i t) @ [], drop i t @ []) Map.empty = []"
    if "i < length t" for i
  proof -
    from assms that have "\<not> family_phrase (rev (rev (take i t) @ [])) (drop i t @ [])"
      by (simp add: list_all_iff)
    then show ?thesis
      by (rule family_pat_needs_phrase)
  qed
  from assms have "\<not> family_phrase (rev (rev t @ [])) []"
    by (simp add: list_all_iff)
  then have "rmatch True family_pat (rev t @ [], []) Map.empty = []"
    by (rule family_pat_needs_phrase)
  then have "search_at True family_pat (rev t @ []) [] = None"
    by simp
  with search_at_skip[of t True family_pat "[]" "[]", OF skip] show ?thesis
    by (simp add: re_search_def)
qed

text \<open>
  A text of decimal digits and dollar signs has no traveler phrase: every traveler pattern
  needs a letter, or white space after a number.
\<close>

definition digit_or_dollar :: "char \<Rightarrow> bool" where
  "digit_or_dollar c = (is_digit c \<or> c = CHR ''$'')"

lemma dollar_ord: "digit_or_dollar c \<Longrightarrow> (36::nat) \<le> of_char c \<and> of_char c \<le> (57::nat)"
  using digit_ord[of c] by (auto simp: digit_or_dollar_def)

lemma lower_ord: "is_lower c \<Longrightarrow> (97::nat) \<le> of_char c"
  by (simp add: is_lower_def less_eq_char_def)

lemma upper_letters_ord: "c \<in> set upper_letters \<Longrightarrow> of_char c \<le> (90::nat)"
  unfolding upper_letters_def by (simp only: list.set insert_iff empty_iff) (elim disjE; simp)

lemma lower_letters_ord: "c \<in> set lower_letters \<Longrightarrow> (97::nat) \<le> of_char c"
  unfolding lower_letters_def by (simp only: list.set insert_iff empty_iff) (elim disjE; simp)

lemma lower_chr_lower: "is_lower c \<Longrightarrow> lower_chr c = c"
  using lower_chr_cases[of c] upper_letters_ord[of c] lower_ord[of c] by auto

lemma upper_letters_ord_low: "c \<in> set upper_letters \<Longrightarrow> (65::nat) \<le> of_char c"
  unfolding upper_letters_def by (simp only: list.set insert_iff empty_iff) (elim disjE; simp)

lemma dollar_case_maps:
  assumes "digit_or_dollar c"
  shows "lower_chr c = c" and "upper_chr c = c"
  using dollar_ord[OF assms] lower_chr_cases[of c] upper_chr_cases[of c]
    upper_letters_ord_low[of c] lower_letters_ord[of c]
  by auto

lemma dollar_not_space: "digit_or_dollar c \<Longrightarrow> \<not> is_space c"
proof
  assume d: "digit_or_dollar c" and "is_space c"
  from \<open>is_space c\<close> have "of_char c < (36::nat)"
    unfolding is_space_def by (simp only: list.set insert_iff empty_iff) (elim disjE; simp)
  with dollar_ord[OF d] show False
    by simp
qed

lemma dollar_not_in_Sp: "digit_or_dollar c \<Longrightarrow> \<not> in_items ic [Sp] c"
  by (simp add: in_items_def dollar_case_maps dollar_not_space)

lemma dollar_not_letter: "digit_or_dollar x \<Longrightarrow> is_lower c \<Longrightarrow> \<not> chr_eq True c x"
  using dollar_ord[of x] lower_ord[of c]
  by (auto simp: chr_eq_def dollar_case_maps lower_chr_lower)

lemma rmatch_Lit_dollar:
  assumes "list_all digit_or_dollar t" and "is_lower c"
  shows "rmatch True (Lit (c # w)) (p, t) g = []"
proof (cases t)
  case Nil
  then show ?thesis
    by simp
next
  case (Cons x t')
  with assms(1) have "digit_or_dollar x"
    by simp
  from dollar_not_letter[OF this assms(2)] Cons show ?thesis
    by simp
qed

lemma rmatch_ws1_dollar:
  assumes "list_all digit_or_dollar t"
  shows "rmatch ic ws1 (p, t) g = []"
proof -
  from assms have "takeWhile (in_cset ic (Pos [Sp])) t = []"
    by (cases t) (simp_all add: dollar_not_in_Sp)
  then show ?thesis
    by (simp add: ws1_def rep_counts_def)
qed

lemma word_pat_dollar:
  assumes "list_all digit_or_dollar t" and "is_lower c"
  shows "rmatch True (Seq WordB (Seq (Lit (c # w)) r)) (p, t) g = []"
  by (intro rmatch_WordB_Seq_Nil rmatch_Seq_Nil rmatch_Lit_dollar assms)

lemma family_pat_dollar:
  "list_all digit_or_dollar t \<Longrightarrow> rmatch True family_pat (p, t) g = []"
  unfolding family_pat_def seqs_def foldr.simps o_apply
  by (rule word_pat_dollar) (simp_all add: is_lower_def)

lemma for_pat_dollar:
  "list_all digit_or_dollar t \<Longrightarrow> rmatch True for_pat (p, t) g = []"
  unfolding for_pat_def seqs_def foldr.simps o_apply
  by (rule word_pat_dollar) (simp_all add: is_lower_def)

lemma people_word_pat_dollar:
  "list_all digit_or_dollar t \<Longrightarrow> is_lower c \<Longrightarrow>
     rmatch True (people_word_pat (c # w)) (p, t) g = []"
  unfolding people_word_pat_def seqs_def foldr.simps o_apply
  by (rule word_pat_dollar)

lemma couple_pat_dollar:
  assumes "list_all digit_or_dollar t"
  shows "rmatch True couple_pat (p, t) g = []"
proof -
  have "rmatch True (Lit ''couple'') (p, t) g = []" and "rmatch True (Lit ''honeymoon'') (p, t) g = []"
    by (rule rmatch_Lit_dollar[OF assms], simp add: is_lower_def)+
  then have "rmatch True (Grp 1 (alts [''couple'', ''honeymoon''])) (p, t) g = []"
    by (simp add: alts_def)
  then show ?thesis
    unfolding couple_pat_def seqs_def foldr.simps o_apply
    by (intro rmatch_WordB_Seq_Nil rmatch_Seq_Nil)
qed

lemma people_pat_dollar:
  assumes "list_all digit_or_dollar t"
  shows "rmatch True people_pat (p, t) g = []"
proof -
  let ?digs = "Grp 1 (Rep True 1 None (Pos [Dg]))"
  have rest: "list_all digit_or_dollar (snd (fst res))"
    if "res \<in> set (rmatch True ?digs (p, t) g)" for res
  proof -
    from that obtain n where "snd (fst res) = drop n t"
      by (auto simp: advance_def)
    with assms show ?thesis
      by (auto simp: list_all_iff dest: in_set_dropD)
  qed
  have "rmatch True (Seq ?digs (Seq ws1 r)) (p, t) g = []" for r
  proof -
    have "(case res of (cur', g') \<Rightarrow> rmatch True (Seq ws1 r) cur' g') = []"
      if "res \<in> set (rmatch True ?digs (p, t) g)" for res
    proof -
      from rmatch_ws1_dollar[OF rest[OF that], of True "fst (fst res)" "snd res"]
      have "rmatch True ws1 (fst res) (snd res) = []"
        by simp
      then have "rmatch True (Seq ws1 r) (fst res) (snd res) = []"
        by (rule rmatch_Seq_Nil)
      then show ?thesis
        by (simp add: case_prod_beta)
    qed
    then have c: "concat (map (\<lambda>(cur', g'). rmatch True (Seq ws1 r) cur' g')
                 (rmatch True ?digs (p, t) g)) = []"
      by (simp only: concat_eq_Nil_conv set_map) blast
    show ?thesis
      by (subst rmatch.simps(4)) (rule c)
  qed
  then show ?thesis
    unfolding people_pat_def seqs_def foldr.simps o_apply
    by (intro rmatch_WordB_Seq_Nil)
qed

lemma first_word_num_dollar:
  assumes "list_all digit_or_dollar t"
    and "list_all (\<lambda>wn. fst wn \<noteq> [] \<and> is_lower (hd (fst wn))) ws"
  shows "first_word_num people_word_pat t ws = None"
  using assms(2)
proof (induction ws)
  case Nil
  then show ?case
    by simp
next
  case (Cons wn ws)
  obtain w n where wn: "wn = (w, n)"
    by (cases wn)
  with Cons.prems obtain c w' where w: "w = c # w'" and c: "is_lower c"
    by (cases w) auto
  have "search_at True (people_word_pat (c # w')) [] t = None"
    by (rule search_at_None[where P = digit_or_dollar, OF people_word_pat_dollar])
       (simp_all add: c assms(1))
  moreover from Cons have "first_word_num people_word_pat t ws = None"
    by simp
  ultimately show ?case
    by (simp add: wn w re_search_def)
qed

lemma word_nums_lower: "list_all (\<lambda>wn. fst wn \<noteq> [] \<and> is_lower (hd (fst wn))) WORD_NUMS"
  by (simp add: WORD_NUMS_def is_lower_def)

lemma find_travelers_dollar:
  assumes "list_all digit_or_dollar t"
  shows "find_travelers t = Inr \<lparr>adults = None, children = 0\<rparr>"
proof -
  have 1: "re_search True family_pat t = None"
    unfolding re_search_def
    by (rule search_at_None[where P = digit_or_dollar, OF family_pat_dollar]) (simp_all add: assms)
  have 2: "re_search True people_pat t = None"
    unfolding re_search_def
    by (rule search_at_None[where P = digit_or_dollar, OF people_pat_dollar]) (simp_all add: assms)
  have 3: "first_word_num people_word_pat t WORD_NUMS = None"
    by (rule first_word_num_dollar[OF assms word_nums_lower])
  have 4: "re_search True for_pat t = None"
    unfolding re_search_def
    by (rule search_at_None[where P = digit_or_dollar, OF for_pat_dollar]) (simp_all add: assms)
  have 5: "re_search True couple_pat t = None"
    unfolding re_search_def
    by (rule search_at_None[where P = digit_or_dollar, OF couple_pat_dollar]) (simp_all add: assms)
  show ?thesis
    by (simp add: find_travelers_def 1 2 3 4 5)
qed

section \<open>Budgets\<close>

text \<open>
  Claim C4. A budget amount in the returned record should be strictly positive, zero
  standing for "no amount" in all three numeric rules. The sign rule and the "budget N"
  rule skip a zero amount; the rule for a number followed by a currency word returns
  whatever the number normalises to: "0 usd" gives amount 0 with currency USD, and so
  does the unparsable "1.2.3 usd".
\<close>

theorem currency_word_rule_returns_zero_amount:
  "find_budget ''0 usd'' = Inr \<lparr>amount = Some 0, currency = Some ''USD'', tag = None\<rparr> \<and>
   map_sum (\<lambda>e. e) budget (parse_trip_request y ''0 usd'') =
     Inr \<lparr>amount = Some 0, currency = Some ''USD'', tag = None\<rparr> \<and>
   find_budget ''1.2.3 usd'' = Inr \<lparr>amount = Some 0, currency = Some ''USD'', tag = None\<rparr> \<and>
   find_budget ''$0'' = Inr \<lparr>amount = None, currency = None, tag = None\<rparr> \<and>
   find_budget ''budget 0'' = Inr \<lparr>amount = None, currency = None, tag = None\<rparr>"
proof -
  have s: "strip ''0 usd'' = ''0 usd''"
    by code_simp
  have t: "find_travelers ''0 usd'' = Inr \<lparr>adults = None, children = 0\<rparr>"
    by code_simp
  have a: "find_budget ''0 usd'' = Inr \<lparr>amount = Some 0, currency = Some ''USD'', tag = None\<rparr>"
    by code_simp
  have b: "find_budget ''1.2.3 usd'' = Inr \<lparr>amount = Some 0, currency = Some ''USD'', tag = None\<rparr>"
    by code_simp
  have c: "find_budget ''$0'' = Inr \<lparr>amount = None, currency = None, tag = None\<rparr>"
    by code_simp
  have d: "find_budget ''budget 0'' = Inr \<lparr>amount = None, currency = None, tag = None\<rparr>"
    by code_simp
  from parse_of_parts[OF s t a, of y] a b c d show ?thesis
    by simp
qed


section \<open>Exceptions\<close>

lemma py_float_digits:
  assumes "list_all is_digit ds" and "ds \<noteq> []"
  shows "py_float ds = Inr (to_double (int_of_digits ds) 1)"
proof -
  from assms(1) have "list_all is_digit (rev ds)"
    by (simp add: list_all_iff)
  then have a: "dropWhile is_c_space (rev ds) = rev ds"
    by (cases "rev ds") (simp_all add: digit_not_c_space)
  from assms(1) have b: "dropWhile is_c_space ds = ds"
    by (cases ds) (simp_all add: digit_not_c_space)
  from assms(1) have c: "takeWhile is_digit ds = ds" and d: "dropWhile is_digit ds = []"
    by (simp_all add: takeWhile_eq_all_conv list_all_iff)
  from assms(2) show ?thesis
    unfolding py_float_def Let_def a b rev_rev_ident c d by simp
qed

lemma normalize_digits:
  assumes "list_all is_digit ds" and "ds \<noteq> []"
  shows "normalize_budget_number ds = int_of_float (to_double (int_of_digits ds) 1)"
proof -
  from assms(1) have l: "lower ds = ds"
    by (simp add: lower_def list_all_iff digit_lower_chr map_idI)
  from assms(1) have f1: "filter (\<lambda>c. c \<noteq> CHR '','') ds = ds"
    by (simp add: list_all_iff digit_not_sep(1))
  from assms(1) have f2: "filter (\<lambda>c. c \<noteq> CHR '' '') ds = ds"
    by (simp add: list_all_iff digit_not_sep(2))
  from assms have "is_digit (last ds)"
    by (simp add: list_all_iff)
  then have k: "last ds \<noteq> CHR ''k''"
    by (rule digit_not_sep(3))
  from k py_float_digits[OF assms] show ?thesis
    unfolding normalize_budget_number_def Let_def l f1 f2 by simp
qed

lemma sign_search_digits:
  assumes "list_all is_digit ds" and "ds \<noteq> []"
  shows "re_search True (sign_pat ''$'') (''$'' @ ds) =
           Some \<lparr>m_before = [], m_whole = ''$'' @ ds, m_groups = [1 \<mapsto> ds], m_after = []\<rparr>"
proof -
  let ?cls = "Pos [Dg, Ch CHR '','', Ch CHR ''.'', Sp]"
  have 1: "first_try True (Lit ''$'') ([], ''$'' @ ds) Map.empty = Some ((''$'', ds), Map.empty)"
    by (rule first_try_Lit) (simp add: chr_eq_def)
  have 2: "first_try True ws0 (''$'', ds) Map.empty = Some ((''$'', ds), Map.empty)"
    unfolding ws0_def
    using first_try_Rep_greedy[of True "Pos [Sp]" ds 0 0 "''$''" Map.empty]
    unfolding takeWhile_digits_space[OF assms(1), of True]
    by simp
  have 3: "first_try True (Rep True 0 None ?cls) (''$'', ds) Map.empty =
             Some ((rev ds @ ''$'', []), Map.empty)"
    using first_try_Rep_greedy[of True ?cls ds "length ds" 0 "''$''" Map.empty]
    unfolding takeWhile_digits_all[OF assms(1), of True]
    by simp
  have 4: "first_try True (Opt (Lit ''k'')) (rev ds @ ''$'', []) Map.empty =
             Some ((rev ds @ ''$'', []), Map.empty)"
    by (rule first_try_Opt_skip) simp
  from first_try_Seq[OF 3 4]
  have 5: "first_try True number_token (''$'', ds) Map.empty =
             Some ((rev ds @ ''$'', []), Map.empty)"
    by (simp add: number_token_def)
  from first_try_Grp[OF 5, of 1]
  have 6: "first_try True (Grp 1 number_token) (''$'', ds) Map.empty =
             Some ((rev ds @ ''$'', []), [1 \<mapsto> ds])"
    by simp
  have 7: "first_try True (Lit []) (rev ds @ ''$'', []) [1 \<mapsto> ds] =
             Some ((rev ds @ ''$'', []), [1 \<mapsto> ds])"
    by (rule first_try_Lit) simp
  from first_try_Seq[OF 1 first_try_Seq[OF 2 first_try_Seq[OF 6 7]]]
  have "first_try True (sign_pat ''$'') ([], ''$'' @ ds) Map.empty =
          Some ((rev ds @ ''$'', []), [1 \<mapsto> ds])"
    by (simp add: sign_pat_def seqs_def)
  from search_at_first_try[OF this] show ?thesis
    by (simp add: re_search_def mk_match_def)
qed

lemma bit_length_bounds:
  "0 < n \<Longrightarrow> \<exists>k. bit_length n = int (Suc k) \<and> 2 ^ k \<le> n \<and> n < 2 ^ Suc k"
proof (induction n rule: bit_length.induct)
  case (1 n)
  show ?case
  proof (cases "n = 1")
    case True
    have "bit_length 0 = 0"
      by (simp add: bit_length.simps[of 0])
    then have "bit_length 1 = int (Suc 0)"
      by (simp add: bit_length.simps[of 1])
    with True show ?thesis
      by (intro exI[of _ 0]) simp
  next
    case False
    with "1.prems" have pos: "0 < n div 2" and n: "\<not> n \<le> 0"
      by simp_all
    from "1.IH"[OF n pos] obtain k where
      k: "bit_length (n div 2) = int (Suc k)" "2 ^ k \<le> n div 2" "n div 2 < 2 ^ Suc k"
      by blast
    from n k(1) have "bit_length n = int (Suc (Suc k))"
      by (simp add: bit_length.simps[of n])
    moreover from k(2) have "2 ^ Suc k \<le> n"
      by simp
    moreover from k(3) have "n < 2 ^ Suc (Suc k)"
      by simp
    ultimately show ?thesis
      by blast
  qed
qed

lemma to_double_overflow:
  assumes "2 ^ 1024 \<le> a"
  shows "to_double a 1 = Infinity"
proof -
  from assms have pos: "0 < a"
    by (smt (verit) zero_less_power)
  from bit_length_bounds[OF pos] obtain k where
    k: "bit_length a = int (Suc k)" "2 ^ k \<le> a" "a < 2 ^ Suc k"
    by blast
  from assms k(3) have lt: "(2::int) ^ 1024 < 2 ^ Suc k"
    by (rule le_less_trans)
  have "(1::int) < 2"
    by simp
  from power_less_imp_less_exp[OF this lt] have big: "1024 \<le> k"
    by simp
  have one: "bit_length 1 = 1"
    by (simp add: bit_length.simps[of 1] bit_length.simps[of 0])
  from k(1) k(2) one have "floor_log2 a 1 = int k"
    by (simp add: floor_log2_def)
  with big pos show ?thesis
    by (simp add: to_double_def Let_def)
qed

lemma strip_sign_digits:
  assumes "list_all is_digit ds" and "ds \<noteq> []"
  shows "strip (CHR ''$'' # ds) = CHR ''$'' # ds"
proof -
  from assms have "is_digit (last ds)"
    by (simp add: list_all_iff)
  then have "\<not> is_space (last ds)"
    by (rule digit_not_space)
  with assms(2) have "dropWhile is_space (rev ds @ ''$'') = rev ds @ ''$''"
    by (cases ds rule: rev_cases) simp_all
  moreover have "\<not> is_space CHR ''$''"
    by (simp add: is_space_def)
  ultimately show ?thesis
    by (simp add: strip_def)
qed

lemma huge_amount_raises:
  assumes "list_all is_digit ds" and "2 ^ 1024 \<le> int_of_digits ds"
  shows "find_budget (''$'' @ ds) = Inl OverflowError"
    and "parse_trip_request y (''$'' @ ds) = Inl OverflowError"
proof -
  from assms(2) have ne: "ds \<noteq> []"
    by (auto simp: int_of_digits_def)
  have "normalize_budget_number ds = Inl OverflowError"
    by (simp add: normalize_digits[OF assms(1) ne] to_double_overflow[OF assms(2)])
  moreover have "re_search True (sign_pat ''$'') (CHR ''$'' # ds) =
      Some \<lparr>m_before = [], m_whole = CHR ''$'' # ds, m_groups = [1 \<mapsto> ds], m_after = []\<rparr>"
    using sign_search_digits[OF assms(1) ne] by simp
  ultimately have b: "find_budget (CHR ''$'' # ds) = Inl OverflowError"
    using ne by (simp add: find_budget_def CURRENCY_SIGNS_def strip_digits[OF assms(1)])
  then show "find_budget (''$'' @ ds) = Inl OverflowError"
    by simp
  from assms(1) have "list_all digit_or_dollar (CHR ''$'' # ds)"
    by (simp add: list_all_iff digit_or_dollar_def)
  then have t: "find_travelers (CHR ''$'' # ds) = Inr \<lparr>adults = None, children = 0\<rparr>"
    by (rule find_travelers_dollar)
  from parse_raises_in_budget[OF strip_sign_digits[OF assms(1) ne] t b]
  show "parse_trip_request y (''$'' @ ds) = Inl OverflowError"
    by simp
qed

lemma nines_digits: "list_all is_digit (replicate n CHR ''9'')"
  by (simp add: list_all_iff is_digit_def)

lemma int_of_digits_nines: "int_of_digits (replicate n CHR ''9'') = 10 ^ n - 1"
proof -
  have "foldl (\<lambda>a c. 10 * a + digit_val c) a (replicate n CHR ''9'') = 10 ^ n * (a + 1) - 1" for a
    by (induction n arbitrary: a) (simp_all add: digit_val_def algebra_simps)
  from this[of 0] show ?thesis
    by (simp add: int_of_digits_def)
qed

text \<open>
  Claim C5. parse_trip_request should return with status "success" for every input. The
  budget normaliser guards \<^verbatim>\<open>int(float(s))\<close> against \<^verbatim>\<open>ValueError\<close> only: a number of
  \<open>2 ^ 1024\<close> or more after a currency sign makes \<^verbatim>\<open>float(s)\<close> infinite, and \<^verbatim>\<open>int\<close> of
  that raises \<^verbatim>\<open>OverflowError\<close>, which leaves parse_trip_request. "$" followed by 309
  nines is such an input.
\<close>

theorem overflowing_amount_raises:
  "parse_trip_request y (''$'' @ replicate 309 CHR ''9'') = Inl OverflowError"
proof -
  have "(2::int) ^ 1024 \<le> 10 ^ 309 - 1"
    by simp
  then have "2 ^ 1024 \<le> int_of_digits (replicate 309 CHR ''9'')"
    by (simp only: int_of_digits_nines)
  from huge_amount_raises(2)[OF nines_digits this] show ?thesis .
qed

section \<open>Interests\<close>

lemma interest_hits_finite: "finite hits \<Longrightarrow> finite (interest_hits text kws hits)"
proof (induction kws arbitrary: hits)
  case Nil
  then show ?case by simp
next
  case (Cons kw kws)
  obtain tg ws where kw: "kw = (tg, ws)"
    by (cases kw)
  from Cons.prems have "finite (if has_keyword text ws then insert tg hits else hits)"
    by simp
  from Cons.IH[OF this] kw show ?case
    by simp
qed

lemma interest_hits_subset:
  "interest_hits text kws hits \<subseteq> hits \<union> fst ` set kws"
proof (induction kws arbitrary: hits)
  case Nil
  then show ?case by simp
next
  case (Cons kw kws)
  obtain tg ws where kw: "kw = (tg, ws)"
    by (cases kw)
  define H where "H = (if has_keyword text ws then insert tg hits else hits)"
  have "interest_hits text kws H \<subseteq> H \<union> fst ` set kws"
    by (rule Cons.IH)
  moreover have "H \<subseteq> insert tg hits"
    by (simp add: H_def subset_insertI)
  ultimately have "interest_hits text kws H \<subseteq> insert tg hits \<union> fst ` set kws"
    by blast
  with kw show ?case
    by (simp add: H_def)
qed

lemma vocabulary:
  "fst ` set INTEREST_KEYWORDS =
     {''art'', ''food'', ''history'', ''nature'', ''adventure'', ''nightlife'', ''shopping'',
      ''family'', ''romance''}"
  unfolding INTEREST_KEYWORDS_def by (simp only: list.set image_insert image_empty fst_conv)

lemma find_interests_shape:
  "sorted (find_interests t) \<and> distinct (find_interests t) \<and>
   set (find_interests t) \<subseteq>
     {''art'', ''food'', ''history'', ''nature'', ''adventure'', ''nightlife'', ''shopping'',
      ''family'', ''romance''}"
proof -
  have fin: "finite (interest_hits t INTEREST_KEYWORDS {})"
    by (simp add: interest_hits_finite)
  have "interest_hits t INTEREST_KEYWORDS {} \<subseteq> {} \<union> fst ` set INTEREST_KEYWORDS"
    by (rule interest_hits_subset)
  then have sub: "interest_hits t INTEREST_KEYWORDS {} \<subseteq>
     {''art'', ''food'', ''history'', ''nature'', ''adventure'', ''nightlife'', ''shopping'',
      ''family'', ''romance''}"
    by (simp only: vocabulary Un_empty_left)
  have "set (find_interests t) = interest_hits t INTEREST_KEYWORDS {}"
    unfolding find_interests_def using fin by (rule set_sorted_list_of_set)
  moreover have "sorted (find_interests t)"
    unfolding find_interests_def by (rule sorted_sorted_list_of_set)
  moreover have "distinct (find_interests t)"
    unfolding find_interests_def by (rule distinct_sorted_list_of_set)
  ultimately show ?thesis
    using sub by (simp only: simp_thms)
qed


text \<open>
  Claim C10. In every returned record the interests are an ascending list without
  duplicates whose elements all belong to the vocabulary art, food, history, nature,
  adventure, nightlife, shopping, family, romance, also when several trigger words of one
  category occur (the witness has "museum", "art" and "gallery", all of the category art).
\<close>

theorem interests_sorted_distinct_in_vocabulary:
  assumes "parse_trip_request y t = Inr r"
  shows "sorted (interests r) \<and> distinct (interests r) \<and>
         set (interests r) \<subseteq>
           {''art'', ''food'', ''history'', ''nature'', ''adventure'', ''nightlife'', ''shopping'',
            ''family'', ''romance''}"
  using find_interests_shape[of "strip t"] by (simp only: interests_of_parse[OF assms])

theorem interests_sorted_distinct_in_vocabulary_witness:
  "\<exists>r. parse_trip_request 2026 ''zoo, museum and art gallery'' = Inr r \<and>
       interests r = [''art'', ''family''] \<and>
       sorted (interests r) \<and> distinct (interests r) \<and>
       set (interests r) \<subseteq>
           {''art'', ''food'', ''history'', ''nature'', ''adventure'', ''nightlife'', ''shopping'',
            ''family'', ''romance''}"
proof -
  have s: "strip ''zoo, museum and art gallery'' = ''zoo, museum and art gallery''"
    by code_simp
  have t: "find_travelers ''zoo, museum and art gallery'' = Inr \<lparr>adults = None, children = 0\<rparr>"
    by code_simp
  have b: "find_budget ''zoo, museum and art gallery'' =
      Inr \<lparr>amount = None, currency = None, tag = None\<rparr>"
    by code_simp
  have i: "find_interests ''zoo, museum and art gallery'' = [''art'', ''family'']"
    by code_simp
  from parse_of_parts[OF s t b, of 2026] obtain r where
    r: "parse_trip_request 2026 ''zoo, museum and art gallery'' = Inr r"
    by blast
  from interests_of_parse[OF r] have "interests r = [''art'', ''family'']"
    by (simp only: s i)
  with r interests_sorted_distinct_in_vocabulary[OF r] show ?thesis
    by (intro exI[of _ r] conjI) (erule conjE | assumption)+
qed

end
